theory Spec2Isabelle
  imports Complex_Main "HOL-Library.Extended_Nat" "HOL-Library.Code_Target_Nat"
begin

section \<open>JavaScript strings over Latin-1 text\<close>

text \<open>
  The export is read with the \<^verbatim>\<open>latin1\<close> decoder, so every character of the text is one
  code unit below 256: the 8-bit type \<^typ>\<open>char\<close> holds it exactly.
\<close>

definition charCode :: "char \<Rightarrow> nat" where
  "charCode c = of_char c"

definition inRange :: "char \<Rightarrow> char \<Rightarrow> char \<Rightarrow> bool" where
  "inRange lo hi c \<longleftrightarrow> charCode lo \<le> charCode c \<and> charCode c \<le> charCode hi"

definition isDigit :: "char \<Rightarrow> bool" where
  "isDigit c \<longleftrightarrow> inRange CHR ''0'' CHR ''9'' c"

definition isLower :: "char \<Rightarrow> bool" where
  "isLower c \<longleftrightarrow> inRange CHR ''a'' CHR ''z'' c"

definition isUpper :: "char \<Rightarrow> bool" where
  "isUpper c \<longleftrightarrow> inRange CHR ''A'' CHR ''Z'' c"

text \<open>White space of \<^verbatim>\<open>String.prototype.trim\<close> and of \<^verbatim>\<open>\s\<close>, below 256:
  TAB, LF, VT, FF, CR, SP and NBSP.\<close>

definition isWhiteSpace :: "char \<Rightarrow> bool" where
  "isWhiteSpace c \<longleftrightarrow>
     c = CHR 0x09 \<or> c = CHR 0x0A \<or> c = CHR 0x0B \<or> c = CHR 0x0C \<or> c = CHR 0x0D \<or>
     c = CHR 0x20 \<or> c = CHR 0xA0"

text \<open>The word characters of \<^verbatim>\<open>\b\<close>: \<^verbatim>\<open>[A-Za-z0-9_]\<close>.\<close>

definition isWordChar :: "char \<Rightarrow> bool" where
  "isWordChar c \<longleftrightarrow> isLower c \<or> isUpper c \<or> isDigit c \<or> c = CHR ''_''"

definition trim :: "string \<Rightarrow> string" where
  "trim s = rev (dropWhile isWhiteSpace (rev (dropWhile isWhiteSpace s)))"

fun startsWith :: "string \<Rightarrow> string \<Rightarrow> bool" where
  "startsWith s [] = True"
| "startsWith [] (p # ps) = False"
| "startsWith (c # cs) (p # ps) = (c = p \<and> startsWith cs ps)"

text \<open>\<^verbatim>\<open>s.includes(t)\<close>\<close>

fun includesStr :: "string \<Rightarrow> string \<Rightarrow> bool" where
  "includesStr [] t = (t = [])"
| "includesStr (c # cs) t = (startsWith (c # cs) t \<or> includesStr cs t)"

text \<open>\<^verbatim>\<open>s.split(d)\<close> for a one-character separator: never empty, \<^verbatim>\<open>"".split(d)\<close> is
  \<^verbatim>\<open>[""]\<close>.\<close>

fun splitOn :: "char \<Rightarrow> string \<Rightarrow> string list" where
  "splitOn d [] = [[]]"
| "splitOn d (c # cs) =
     (if c = d then [] # splitOn d cs
      else (case splitOn d cs of [] \<Rightarrow> [[c]] | w # ws \<Rightarrow> (c # w) # ws))"

section \<open>The regular expressions of the program\<close>

text \<open>
  Case folding of the \<^verbatim>\<open>i\<close> flag (no \<^verbatim>\<open>u\<close> flag): a character is compared by its upper
  case when that is a single code unit. Below 256 this maps a-z and the Latin-1 lower-case
  letters 0xE0-0xFE (0xF7 apart) 32 places down and leaves every other character as it is.
\<close>

definition toUpper :: "char \<Rightarrow> char" where
  "toUpper c =
     (let n = charCode c in
      if (97 \<le> n \<and> n \<le> 122) \<or> (224 \<le> n \<and> n \<le> 254 \<and> n \<noteq> 247)
      then char_of (n - 32) else c)"

definition toLower :: "char \<Rightarrow> char" where
  "toLower c =
     (let n = charCode c in
      if (65 \<le> n \<and> n \<le> 90) \<or> (192 \<le> n \<and> n \<le> 222 \<and> n \<noteq> 215)
      then char_of (n + 32) else c)"

text \<open>
  The expressions of the program are sequences of one-character matchers, some of them under
  a quantifier, with at most one capture group, which is never under a quantifier.
  A \<open>cset\<close> is a member of a bracket or a class on its own: a character, a range
  \<^verbatim>\<open>a-b\<close>, \<^verbatim>\<open>\d\<close>, \<^verbatim>\<open>\s\<close>. A \<open>matcher\<close> is one of them, the dot, a bracket \<^verbatim>\<open>[...]\<close> or a
  negated bracket \<^verbatim>\<open>[^...]\<close>. An \<open>item\<close> is a matcher \<^verbatim>\<open>x\<close>, \<^verbatim>\<open>x*\<close>, \<^verbatim>\<open>x+\<close>, \<^verbatim>\<open>x*?\<close>, the
  opening or the closing parenthesis of the group, \<^verbatim>\<open>\b\<close>, \<^verbatim>\<open>^\<close> or \<^verbatim>\<open>$\<close>.
\<close>

datatype cset = Chr char | Rng char char | DigitC | SpaceC

datatype matcher = Is cset | AnyC | In "cset list" | NotIn "cset list"

datatype item =
    One matcher
  | Star matcher
  | Plus matcher
  | LazyStar matcher
  | GroupOpen
  | GroupClose
  | WordB
  | Bol
  | Eol

fun inCset :: "bool \<Rightarrow> cset \<Rightarrow> char \<Rightarrow> bool" where
  "inCset ci (Chr p) c = (if ci then toUpper c = toUpper p else c = p)"
| "inCset ci (Rng lo hi) c =
     (if ci then inRange lo hi (toUpper c) \<or> inRange lo hi (toLower c) else inRange lo hi c)"
| "inCset ci DigitC c = isDigit c"
| "inCset ci SpaceC c = isWhiteSpace c"

fun accepts :: "bool \<Rightarrow> matcher \<Rightarrow> char \<Rightarrow> bool" where
  "accepts ci (Is a) c = inCset ci a c"
| "accepts ci AnyC c = (c \<noteq> CHR 0x0A \<and> c \<noteq> CHR 0x0D)"
| "accepts ci (In as) c = list_ex (\<lambda>a. inCset ci a c) as"
| "accepts ci (NotIn as) c = (\<not> list_ex (\<lambda>a. inCset ci a c) as)"

definition lits :: "string \<Rightarrow> item list" where
  "lits s = map (\<lambda>c. One (Is (Chr c))) s"

definition atWordBoundary :: "string \<Rightarrow> string \<Rightarrow> bool" where
  "atWordBoundary bef rest \<longleftrightarrow>
     (case bef of [] \<Rightarrow> False | b # _ \<Rightarrow> isWordChar b) \<noteq>
     (case rest of [] \<Rightarrow> False | c # _ \<Rightarrow> isWordChar c)"

text \<open>
  The backtracking matcher. \<open>bef\<close> is the text before the current position, reversed; \<open>rest\<close>
  the text from it on; \<open>opened\<close> the position where the capture group was entered; \<open>cap\<close>
  the text captured by group 1. The result is the capture and the text after the match.
\<close>

fun run :: "bool \<Rightarrow> item list \<Rightarrow> string \<Rightarrow> string \<Rightarrow> nat \<Rightarrow> string option
    \<Rightarrow> (string option \<times> string) option" where
  "run ci [] bef rest opened cap = Some (cap, rest)"
| "run ci (One m # its) bef [] opened cap = None"
| "run ci (One m # its) bef (c # cs) opened cap =
     (if accepts ci m c then run ci its (c # bef) cs opened cap else None)"
| "run ci (Star m # its) bef [] opened cap = run ci its bef [] opened cap"
| "run ci (Star m # its) bef (c # cs) opened cap =
     (if accepts ci m c
      then (case run ci (Star m # its) (c # bef) cs opened cap of
              Some r \<Rightarrow> Some r
            | None \<Rightarrow> run ci its bef (c # cs) opened cap)
      else run ci its bef (c # cs) opened cap)"
| "run ci (Plus m # its) bef [] opened cap = None"
| "run ci (Plus m # its) bef (c # cs) opened cap =
     (if accepts ci m c then run ci (Star m # its) (c # bef) cs opened cap else None)"
| "run ci (LazyStar m # its) bef [] opened cap = run ci its bef [] opened cap"
| "run ci (LazyStar m # its) bef (c # cs) opened cap =
     (case run ci its bef (c # cs) opened cap of
        Some r \<Rightarrow> Some r
      | None \<Rightarrow>
          if accepts ci m c then run ci (LazyStar m # its) (c # bef) cs opened cap else None)"
| "run ci (GroupOpen # its) bef rest opened cap = run ci its bef rest (length bef) cap"
| "run ci (GroupClose # its) bef rest opened cap =
     run ci its bef rest opened (Some (rev (take (length bef - opened) bef)))"
| "run ci (WordB # its) bef rest opened cap =
     (if atWordBoundary bef rest then run ci its bef rest opened cap else None)"
| "run ci (Bol # its) bef rest opened cap =
     (if bef = [] then run ci its bef rest opened cap else None)"
| "run ci (Eol # its) bef rest opened cap =
     (if rest = [] then run ci its bef rest opened cap else None)"

datatype rmatch = RMatch (index: nat) (group1: "string option") (after: string)

text \<open>The search of \<^verbatim>\<open>match\<close>, \<^verbatim>\<open>test\<close> and \<^verbatim>\<open>replace\<close> without the \<^verbatim>\<open>g\<close> flag: the
  first start position, from the left, at which the expression matches.\<close>

fun search :: "bool \<Rightarrow> item list \<Rightarrow> string \<Rightarrow> string \<Rightarrow> rmatch option" where
  "search ci its bef [] =
     (case run ci its bef [] 0 None of
        Some (cap, aft) \<Rightarrow> Some (RMatch (length bef) cap aft)
      | None \<Rightarrow> None)"
| "search ci its bef (c # cs) =
     (case run ci its bef (c # cs) 0 None of
        Some (cap, aft) \<Rightarrow> Some (RMatch (length bef) cap aft)
      | None \<Rightarrow> search ci its (c # bef) cs)"

record regex =
  ignoreCase :: bool
  items :: "item list"

definition regexMatch :: "regex \<Rightarrow> string \<Rightarrow> rmatch option" where
  "regexMatch re s = search (ignoreCase re) (items re) [] s"

definition regexTest :: "regex \<Rightarrow> string \<Rightarrow> bool" where
  "regexTest re s \<longleftrightarrow> regexMatch re s \<noteq> None"

text \<open>\<^verbatim>\<open>s.replace(re, repl)\<close> without the \<^verbatim>\<open>g\<close> flag, for a replacement text without
  \<^verbatim>\<open>$\<close>: the first match is replaced.\<close>

definition replaceFirst :: "regex \<Rightarrow> string \<Rightarrow> string \<Rightarrow> string" where
  "replaceFirst re repl s =
     (case regexMatch re s of
        None \<Rightarrow> s
      | Some m \<Rightarrow> take (index m) s @ repl @ after m)"

text \<open>
  \<^verbatim>\<open>s.replace(/([a-z])([A-Z])/g, "$1 $2")\<close>: the scan goes from left to right, a match is a
  lower-case letter and the upper-case letter after it, and the scan goes on behind the two.
\<close>

fun camelSpace :: "string \<Rightarrow> string" where
  "camelSpace (a # b # r) =
     (if isLower a \<and> isUpper b then a # CHR '' '' # b # camelSpace r
      else a # camelSpace (b # r))"
| "camelSpace r = r"

section \<open>parseTSV\<close>

text \<open>
  A row is a plain object with string values. It is held as the list of its properties in
  creation order, every key once. \<^verbatim>\<open>Object.keys\<close> lists integer-like keys first, but no such
  key is a \<^verbatim>\<open>Cond\<close> column, so the \<^verbatim>\<open>Cond\<close> columns are met in creation order.
\<close>

type_synonym row = "(string \<times> string) list"

fun assign :: "string \<Rightarrow> string \<Rightarrow> row \<Rightarrow> row" where
  "assign k v [] = [(k, v)]"
| "assign k v ((k', v') # ps) = (if k' = k then (k, v) # ps else (k', v') # assign k v ps)"

text \<open>\<^verbatim>\<open>row[k] = v\<close> on an object made by \<^verbatim>\<open>{}\<close>, for a string \<open>v\<close>: the key
  \<^verbatim>\<open>__proto__\<close> reaches the setter of \<^verbatim>\<open>Object.prototype\<close>, which ignores a string, and no
  property is made.\<close>

definition setProp :: "row \<Rightarrow> string \<Rightarrow> string \<Rightarrow> row" where
  "setProp row k v = (if k = ''__proto__'' then row else assign k v row)"

text \<open>\<^verbatim>\<open>row.NAME\<close> for the two names the program reads, neither of which
  \<^verbatim>\<open>Object.prototype\<close> has: \<open>None\<close> is \<^verbatim>\<open>undefined\<close>.\<close>

definition getProp :: "row \<Rightarrow> string \<Rightarrow> string option" where
  "getProp row k = map_of row k"

definition keys :: "row \<Rightarrow> string list" where
  "keys row = map fst row"

fun replaceCRLF :: "string \<Rightarrow> string" where
  "replaceCRLF (c # d # r) =
     (if c = CHR 0x0D \<and> d = CHR 0x0A then CHR 0x0A # replaceCRLF r
      else c # replaceCRLF (d # r))"
| "replaceCRLF r = r"

definition replaceCR :: "string \<Rightarrow> string" where
  "replaceCR s = map (\<lambda>c. if c = CHR 0x0D then CHR 0x0A else c) s"

text \<open>\<^verbatim>\<open>parts[c] ?? ""\<close>\<close>

definition partAt :: "string list \<Rightarrow> nat \<Rightarrow> string" where
  "partAt parts c = (if c < length parts then parts ! c else [])"

definition parseLine :: "string list \<Rightarrow> string \<Rightarrow> row" where
  "parseLine header line =
     (let parts = splitOn CHR 0x09 line
      in foldl (\<lambda>row c. setProp row (header ! c) (trim (partAt parts c))) [] [0..<length header])"

definition parseTSV :: "string \<Rightarrow> row list" where
  "parseTSV tsvText =
     (let lines = filter (\<lambda>l. length (trim l) > 0)
                    (splitOn CHR 0x0A (replaceCR (replaceCRLF tsvText)))
      in case lines of
           [] \<Rightarrow> []
         | l0 # ls \<Rightarrow>
             (let header = map trim (splitOn CHR 0x09 l0)
              in map (parseLine header) ls))"

section \<open>pickLatestLvliEntriesTsv\<close>

text \<open>
  The directory \<^verbatim>\<open>tsv/\<close> as \<^verbatim>\<open>readdirSync\<close> lists it, with the entries of every
  directory under it: a finite tree. An entry that is not a directory is a \<open>File\<close>.
\<close>

datatype dirent = File string | Dir string "dirent list"

text \<open>
  What the program reads of the file system: the tree under \<^verbatim>\<open>tsv/\<close> (\<open>None\<close> when
  \<^verbatim>\<open>existsSync\<close> is false), \<^verbatim>\<open>statSync(p).mtimeMs\<close> and the Latin-1 text of a file. The
  modification times are finite doubles, whose difference has the sign of the exact one:
  they are held as real numbers.
\<close>

record filesystem =
  tsvDir :: "dirent list option"
  mtimeMs :: "string \<Rightarrow> real"
  readFile :: "string \<Rightarrow> string"

text \<open>
  The errors the program throws, one constructor for each message, with the path of the
  message: \<^verbatim>\<open>Missing tsv/ folder at ...\<close> and \<^verbatim>\<open>No LVLI_Export_*_LVLI_Entries.tsv found under ...\<close>
  (the specification's \<^verbatim>\<open>NotFoundError\<close>), and \<^verbatim>\<open>No rows found for LVLI_EDID=... in ...\<close> (its
  \<^verbatim>\<open>MissingListError\<close>).
\<close>

datatype error =
    MissingTsvFolder string
  | NoEntriesTsvFound string
  | NoRowsFound string

text \<open>\<^verbatim>\<open>path.join(dir, name)\<close> for a normalised \<open>dir\<close> and the name of a directory entry.\<close>

definition pathJoin :: "string \<Rightarrow> string \<Rightarrow> string" where
  "pathJoin dir name =
     (if dir \<noteq> [] \<and> last dir = CHR ''/'' then dir @ name else dir @ ''/'' @ name)"

text \<open>\<^verbatim>\<open>path.basename(p)\<close> (POSIX)\<close>

definition basename :: "string \<Rightarrow> string" where
  "basename p =
     rev (takeWhile (\<lambda>c. c \<noteq> CHR ''/'') (dropWhile (\<lambda>c. c = CHR ''/'') (rev p)))"

fun listFiles :: "string \<Rightarrow> dirent \<Rightarrow> string list" where
  "listFiles dir (File name) = [pathJoin dir name]"
| "listFiles dir (Dir name its) = concat (map (listFiles (pathJoin dir name)) its)"

definition listFilesRecursive :: "string \<Rightarrow> dirent list \<Rightarrow> string list" where
  "listFilesRecursive dir its = concat (map (listFiles dir) its)"

text \<open>\<^verbatim>\<open>/LVLI_Export_.*_LVLI_Entries\.tsv$/i\<close>\<close>

definition entriesRe :: regex where
  "entriesRe = \<lparr>ignoreCase = True, items =
     lits ''LVLI_Export_'' @ [Star AnyC] @ lits ''_LVLI_Entries.tsv'' @ [Eol]\<rparr>"

text \<open>
  \<^verbatim>\<open>Array.prototype.sort\<close> is stable; with a consistent comparator its result is the stable
  insertion sort's. \<open>cmp a b > 0\<close> puts \<open>a\<close> behind \<open>b\<close>.
\<close>

fun insertBy :: "('a \<Rightarrow> 'a \<Rightarrow> real) \<Rightarrow> 'a \<Rightarrow> 'a list \<Rightarrow> 'a list" where
  "insertBy cmp x [] = [x]"
| "insertBy cmp x (y # ys) = (if cmp x y \<le> 0 then x # y # ys else y # insertBy cmp x ys)"

definition sortBy :: "('a \<Rightarrow> 'a \<Rightarrow> real) \<Rightarrow> 'a list \<Rightarrow> 'a list" where
  "sortBy cmp xs = foldr (insertBy cmp) xs []"

definition pickLatestLvliEntriesTsv :: "filesystem \<Rightarrow> string \<Rightarrow> error + string" where
  "pickLatestLvliEntriesTsv fs repoRoot =
     (let tsvRoot = pathJoin repoRoot ''tsv'' in
      case tsvDir fs of
        None \<Rightarrow> Inl (MissingTsvFolder tsvRoot)
      | Some its \<Rightarrow>
          (let all = listFilesRecursive tsvRoot its;
               matches = filter (\<lambda>p. regexTest entriesRe (basename p)) all
           in if matches = [] then Inl (NoEntriesTsvFound tsvRoot)
              else Inr (hd (sortBy (\<lambda>a b. mtimeMs fs b - mtimeMs fs a) matches))))"

section \<open>The extractors\<close>

text \<open>\<^verbatim>\<open>/^LocRegion/i\<close>\<close>

definition locRegionPrefixRe :: regex where
  "locRegionPrefixRe = \<lparr>ignoreCase = True, items = [Bol] @ lits ''LocRegion''\<rparr>"

definition prettyFromLocRegion :: "string \<Rightarrow> string" where
  "prettyFromLocRegion keyword =
     (let s = trim keyword;
          s = replaceFirst locRegionPrefixRe [] s;
          s = trim (camelSpace s)
      in s)"

text \<open>\<^verbatim>\<open>/:([^:]+):FISH\b/i\<close>\<close>

definition fishRe :: regex where
  "fishRe = \<lparr>ignoreCase = True, items =
     lits '':'' @ [GroupOpen, Plus (NotIn [Chr CHR '':'']), GroupClose] @ lits '':FISH'' @ [WordB]\<rparr>"

text \<open>\<^verbatim>\<open>m[1]\<close>, the text of group 1. The group is part of every match of the expressions
  that have one (\<open>group_of_match\<close> below), so the second case never arises.\<close>

definition captured :: "rmatch \<Rightarrow> string" where
  "captured m = (case group1 m of Some g \<Rightarrow> g | None \<Rightarrow> [])"

definition prettyFromFishRef :: "string option \<Rightarrow> string" where
  "prettyFromFishRef lvloRef =
     (let ref = (case lvloRef of None \<Rightarrow> [] | Some r \<Rightarrow> r) in
      case regexMatch fishRe ref of
        None \<Rightarrow> []
      | Some m \<Rightarrow>
          (let edid = captured m;
               parts = splitOn CHR ''_'' edid;
               last = parts ! (length parts - 1)
           in trim (camelSpace last)))"

text \<open>\<^verbatim>\<open>/^Cond\d+$/i\<close>\<close>

definition condKeyRe :: regex where
  "condKeyRe = \<lparr>ignoreCase = True, items = [Bol] @ lits ''Cond'' @ [Plus (Is DigitC), Eol]\<rparr>"

text \<open>\<^verbatim>\<open>/MonthlyIndex\s+\[GLOB:[0-9A-F]+\].*?(\d+)\.000000\b/i\<close>\<close>

definition monthRe :: regex where
  "monthRe = \<lparr>ignoreCase = True, items =
     lits ''MonthlyIndex'' @ [Plus (Is SpaceC)] @ lits ''[GLOB:'' @
     [Plus (In [Rng CHR ''0'' CHR ''9'', Rng CHR ''A'' CHR ''F''])] @ lits '']'' @
     [LazyStar AnyC, GroupOpen, Plus (Is DigitC), GroupClose] @ lits ''.000000'' @ [WordB]\<rparr>"

text \<open>
  \<^verbatim>\<open>Number(d)\<close> for a text \<open>d\<close> of decimal digits is a double: the one nearest to the
  number that the digits denote, the one with the even significand when two are equally
  near, and \<^verbatim>\<open>Infinity\<close> when the rounded value does not fit. Such a double is a whole
  number or \<^verbatim>\<open>Infinity\<close>, so it is held exactly as an extended natural number, \<open>\<infinity>\<close>
  being \<^verbatim>\<open>Infinity\<close>.

  \<open>decimalValue d\<close> is the number that the digits denote and \<open>bitLength n\<close> the number of
  binary digits of \<open>n\<close>. A number of at most 53 binary digits is a double. A longer one
  keeps its 53 leading binary digits \<open>q\<close>; the \<open>e\<close> digits \<open>r\<close> cut off round \<open>q\<close>
  upwards when they are more than half a unit of \<open>q\<close>, or exactly half and \<open>q\<close> is odd.
\<close>

definition decimalValue :: "string \<Rightarrow> nat" where
  "decimalValue d = foldl (\<lambda>n c. 10 * n + (charCode c - 48)) 0 d"

fun bitLength :: "nat \<Rightarrow> nat" where
  "bitLength n = (if n = 0 then 0 else Suc (bitLength (n div 2)))"

definition toDouble :: "nat \<Rightarrow> enat" where
  "toDouble n =
     (if bitLength n \<le> 53 then enat n
      else
        (let e = bitLength n - 53;
             q = n div 2 ^ e;
             r = n mod 2 ^ e;
             half = 2 ^ (e - 1);
             m = (if half < r \<or> (r = half \<and> odd q) then q + 1 else q)
         in if m * 2 ^ e < 2 ^ 1024 then enat (m * 2 ^ e) else \<infinity>))"

definition Number :: "string \<Rightarrow> enat" where
  "Number d = toDouble (decimalValue d)"

fun extractMonthIndex :: "row \<Rightarrow> enat option" where
  "extractMonthIndex [] = None"
| "extractMonthIndex ((k, s) # rest) =
     (if \<not> regexTest condKeyRe k then extractMonthIndex rest
      else if s = [] then extractMonthIndex rest
      else if includesStr s ''LCP_Fishing_Axolotl_MonthlyIndex''
      then (case regexMatch monthRe s of
              Some mm \<Rightarrow> Some (Number (captured mm))
            | None \<Rightarrow> extractMonthIndex rest)
      else extractMonthIndex rest)"

text \<open>\<^verbatim>\<open>/\b(LocRegion[A-Za-z0-9_]+)\s+\[KYWD:/\<close>\<close>

definition regionRe :: regex where
  "regionRe = \<lparr>ignoreCase = False, items =
     [WordB, GroupOpen] @ lits ''LocRegion'' @
     [Plus (In [Rng CHR ''A'' CHR ''Z'', Rng CHR ''a'' CHR ''z'', Rng CHR ''0'' CHR ''9'',
                Chr CHR ''_'']),
      GroupClose, Plus (Is SpaceC)] @ lits ''[KYWD:''\<rparr>"

text \<open>\<^verbatim>\<open>regions.add(x)\<close> on a \<^verbatim>\<open>Set\<close>, held as the list of its members in insertion
  order.\<close>

definition setAdd :: "string list \<Rightarrow> string \<Rightarrow> string list" where
  "setAdd regions x = (if x \<in> set regions then regions else regions @ [x])"

fun regionsLoop :: "string list \<Rightarrow> row \<Rightarrow> string list" where
  "regionsLoop regions [] = regions"
| "regionsLoop regions ((k, s) # rest) =
     (if \<not> regexTest condKeyRe k then regionsLoop regions rest
      else if s = [] then regionsLoop regions rest
      else (case regexMatch regionRe s of
              Some m \<Rightarrow>
                (let pretty = prettyFromLocRegion (captured m)
                 in if pretty \<noteq> [] then regionsLoop (setAdd regions pretty) rest
                    else regionsLoop regions rest)
            | None \<Rightarrow> regionsLoop regions rest))"

definition extractRegions :: "row \<Rightarrow> string list" where
  "extractRegions row = regionsLoop [] row"

section \<open>main\<close>

text \<open>
  The object stored for a month: \<^verbatim>\<open>{ name, regions, image: null }\<close>; the field \<^verbatim>\<open>image\<close> is
  written with a prime, the name being taken in HOL, and \<open>None\<close> is \<^verbatim>\<open>null\<close>. The object
  \<^verbatim>\<open>months\<close> is a map from its keys, the texts \<^verbatim>\<open>String(idx)\<close>, to these.
\<close>

record entry =
  name :: string
  regions :: "string list"
  image' :: "string option"

type_synonym months = "string \<rightharpoonup> entry"

fun digitsOf :: "nat \<Rightarrow> string" where
  "digitsOf n = (if n < 10 then [char_of (48 + n)] else digitsOf (n div 10) @ [char_of (48 + n mod 10)])"

text \<open>\<^verbatim>\<open>String(idx)\<close> for a whole number below \<open>10 ^ 21\<close>, from where on JavaScript
  writes an exponent: its decimal digits. \<open>main\<close> applies it to the whole numbers from 1 to
  12 only.\<close>

definition String :: "nat \<Rightarrow> string" where
  "String idx = digitsOf idx"

text \<open>\<^verbatim>\<open>rows.filter(...)\<close> of \<open>main\<close> keeps the rows for which \<open>isAxoRow\<close> holds, and
  \<open>mkEntry\<close> is the object that the loop of \<open>main\<close> stores for a row. In the loop, over
  \<open>axoRows\<close>, \<^verbatim>\<open>!idx\<close> holds for \<^verbatim>\<open>null\<close> and for 0; an index that passes the test is a
  whole number from 1 to 12, which \<open>the_enat\<close> reads as a natural number.\<close>

definition isAxoRow :: "row \<Rightarrow> bool" where
  "isAxoRow r \<longleftrightarrow>
     trim (case getProp r ''LVLI_EDID'' of None \<Rightarrow> [] | Some v \<Rightarrow> v) =
       ''Fishing_LLS_FishCollection_Axolotls''"

definition mkEntry :: "row \<Rightarrow> entry" where
  "mkEntry r =
     (let name = prettyFromFishRef (getProp r ''LVLO_Reference'');
          regions = extractRegions r
      in \<lparr>name = (if name \<noteq> [] then name else ''TBA''), regions = regions, image' = None\<rparr>)"

fun monthsLoop :: "months \<Rightarrow> row list \<Rightarrow> months" where
  "monthsLoop months [] = months"
| "monthsLoop months (r # rs) =
     (case extractMonthIndex r of
        None \<Rightarrow> monthsLoop months rs
      | Some idx \<Rightarrow>
          if idx = 0 \<or> idx < 1 \<or> idx > 12 then monthsLoop months rs
          else monthsLoop (months(String (the_enat idx) \<mapsto> mkEntry r)) rs)"

record payload =
  schemaVersion :: nat
  generatedAt :: string
  timezone :: string
  rolloverTimeLocal :: string
  months :: months

text \<open>\<open>main\<close> up to the payload it writes; \<open>now\<close> is the text of the clock.\<close>

definition main :: "filesystem \<Rightarrow> string \<Rightarrow> string \<Rightarrow> error + payload" where
  "main fs repoRoot now =
     (case pickLatestLvliEntriesTsv fs repoRoot of
        Inl e \<Rightarrow> Inl e
      | Inr entriesPath \<Rightarrow>
          (let tsv = readFile fs entriesPath;
               rows = parseTSV tsv;
               axoRows = filter isAxoRow rows
           in if axoRows = [] then Inl (NoRowsFound entriesPath)
              else Inr \<lparr>schemaVersion = 1, generatedAt = now,
                        timezone = ''America/New_York'', rolloverTimeLocal = ''12:00:00'',
                        months = monthsLoop Map.empty axoRows\<rparr>))"

section \<open>Notions used in the statements\<close>

text \<open>What one column contributes to the loop of \<open>extractRegions\<close>: the tag of the first
  match of its text, if the column is a \<^verbatim>\<open>Cond\<close> column with text and the tag is not empty.\<close>

definition fieldRegion :: "string \<Rightarrow> string \<Rightarrow> string option" where
  "fieldRegion k s =
     (if regexTest condKeyRe k \<and> s \<noteq> [] then
        (case regexMatch regionRe s of
           None \<Rightarrow> None
         | Some m \<Rightarrow>
             if prettyFromLocRegion (captured m) \<noteq> [] then Some (prettyFromLocRegion (captured m))
             else None)
      else None)"

text \<open>What one column yields in the loop of \<open>extractMonthIndex\<close>.\<close>

definition fieldMonthIndex :: "string \<Rightarrow> string \<Rightarrow> enat option" where
  "fieldMonthIndex k s =
     (if regexTest condKeyRe k \<and> s \<noteq> [] \<and> includesStr s ''LCP_Fishing_Axolotl_MonthlyIndex'' then
        (case regexMatch monthRe s of
           None \<Rightarrow> None
         | Some mm \<Rightarrow> Some (Number (captured mm)))
      else None)"

text \<open>The month index under which \<open>main\<close> stores a row, if it stores it.\<close>

definition rowMonth :: "row \<Rightarrow> nat option" where
  "rowMonth r =
     (case extractMonthIndex r of
        None \<Rightarrow> None
      | Some idx \<Rightarrow> if idx = 0 \<or> idx < 1 \<or> idx > 12 then None else Some (the_enat idx))"

text \<open>The matcher, started on \<open>ys\<close> somewhere in \<open>rest\<close>, gives \<open>r\<close>.\<close>

definition reaches :: "bool \<Rightarrow> item list \<Rightarrow> string \<Rightarrow> string \<Rightarrow> (string option \<times> string) \<Rightarrow> bool" where
  "reaches ci ys bef rest r \<longleftrightarrow>
     (\<exists>w rest' opened' cap'. rest = w @ rest' \<and> run ci ys (rev w @ bef) rest' opened' cap' = Some r)"

text \<open>The text \<open>w\<close> is matched, character by character, by the literal \<open>p\<close>.\<close>

definition litMatch :: "bool \<Rightarrow> string \<Rightarrow> string \<Rightarrow> bool" where
  "litMatch ci w p \<longleftrightarrow> list_all2 (\<lambda>x y. inCset ci (Chr y) x) w p"

text \<open>The text \<open>s\<close> starts with \<open>t\<close>, and no word character follows.\<close>

definition tagAt :: "string \<Rightarrow> string \<Rightarrow> bool" where
  "tagAt t s \<longleftrightarrow>
     startsWith s t \<and> (case drop (length t) s of [] \<Rightarrow> True | c # _ \<Rightarrow> \<not> isWordChar c)"

fun includesTag :: "string \<Rightarrow> string \<Rightarrow> bool" where
  "includesTag [] t = False"
| "includesTag (c # cs) t = (tagAt t (c # cs) \<or> includesTag cs t)"

text \<open>A hexadecimal digit in either letter case: what \<^verbatim>\<open>[0-9A-F]\<close> accepts under the
  \<^verbatim>\<open>i\<close> flag.\<close>

definition isHexDigit :: "char \<Rightarrow> bool" where
  "isHexDigit c \<longleftrightarrow> isDigit c \<or> inRange CHR ''A'' CHR ''F'' c \<or> inRange CHR ''a'' CHR ''f'' c"

text \<open>The expression matches a part of the text \<open>s\<close> that begins at position \<open>j\<close>.\<close>

definition matchesAt :: "regex \<Rightarrow> string \<Rightarrow> nat \<Rightarrow> bool" where
  "matchesAt re s j \<longleftrightarrow>
     run (ignoreCase re) (items re) (rev (take j s)) (drop j s) 0 None \<noteq> None"

text \<open>No part of \<open>t\<close> that begins at a position below \<open>n\<close> satisfies \<open>P\<close>.\<close>

definition noneBefore :: "(string \<Rightarrow> bool) \<Rightarrow> nat \<Rightarrow> string \<Rightarrow> bool" where
  "noneBefore P n t \<longleftrightarrow> list_all (\<lambda>j. \<not> P (drop j t)) [0..<n]"

text \<open>The text \<open>t\<close> starts with a numeral as the expression of the monthly index reads
  one, \<^verbatim>\<open>(\d+)\.000000\b\<close>: decimal digits, as many as follow one another, then \<^verbatim>\<open>.000000\<close>
  and no word character.\<close>

definition numeralAt :: "string \<Rightarrow> bool" where
  "numeralAt t \<longleftrightarrow> takeWhile isDigit t \<noteq> [] \<and> tagAt ''.000000'' (dropWhile isDigit t)"

text \<open>The text of a condition on a region keyword: a text \<open>a\<close>, the token \<^verbatim>\<open>LocRegion\<close> with
  the identifier \<open>ident\<close>, white space, and the tag of the keyword, followed by any text.\<close>

definition regionField :: "string \<Rightarrow> string \<Rightarrow> string \<Rightarrow> string \<Rightarrow> string" where
  "regionField a ident ws b = a @ ''LocRegion'' @ ident @ ws @ ''[KYWD:'' @ b"

text \<open>The token of such a text is its first one and a whole word.\<close>

definition regionFieldOk :: "string \<Rightarrow> string \<Rightarrow> string \<Rightarrow> bool" where
  "regionFieldOk a ident ws \<longleftrightarrow>
     \<not> includesStr a ''LocRegion'' \<and> (a = [] \<or> \<not> isWordChar (last a)) \<and>
     ident \<noteq> [] \<and> list_all isWordChar ident \<and> ws \<noteq> [] \<and> list_all isWhiteSpace ws"

section \<open>Characters and strings\<close>

lemma charCode_lt: "charCode c < 256"
  unfolding charCode_def by (metis of_char_mod_256 mod_less_divisor zero_less_numeral)

lemma charCode_inj: "charCode a = charCode b \<Longrightarrow> a = b"
  unfolding charCode_def by simp

lemma charCode_char_of: "n < 256 \<Longrightarrow> charCode (char_of n) = n"
  unfolding charCode_def by simp

lemma charCode_toUpper:
  "charCode (toUpper c) =
     (if (97 \<le> charCode c \<and> charCode c \<le> 122) \<or>
         (224 \<le> charCode c \<and> charCode c \<le> 254 \<and> charCode c \<noteq> 247)
      then charCode c - 32 else charCode c)"
  using charCode_lt [of c] by (simp add: toUpper_def Let_def charCode_char_of)

lemma charCode_consts:
  "charCode CHR ''0'' = 48" "charCode CHR ''9'' = 57"
  "charCode CHR ''A'' = 65" "charCode CHR ''F'' = 70" "charCode CHR ''Z'' = 90"
  "charCode CHR ''a'' = 97" "charCode CHR ''f'' = 102" "charCode CHR ''z'' = 122"
  by (simp_all add: charCode_def)

lemma isWordChar_code:
  "isWordChar c \<longleftrightarrow>
     (97 \<le> charCode c \<and> charCode c \<le> 122) \<or> (65 \<le> charCode c \<and> charCode c \<le> 90) \<or>
     (48 \<le> charCode c \<and> charCode c \<le> 57) \<or> charCode c = 95"
proof -
  have "c = CHR ''_'' \<longleftrightarrow> charCode c = 95"
    using charCode_inj [of c "CHR ''_''"] by (auto simp: charCode_def)
  then show ?thesis
    by (simp add: isWordChar_def isLower_def isUpper_def isDigit_def inRange_def charCode_def)
qed

lemma isWordChar_toUpper: "isWordChar (toUpper c) \<longleftrightarrow> isWordChar c"
  unfolding isWordChar_code charCode_toUpper by auto

lemma isWhiteSpace_code:
  "isWhiteSpace c \<longleftrightarrow> charCode c \<in> {9, 10, 11, 12, 13, 32, 160}"
proof -
  have "\<And>d. (c = d) = (charCode c = charCode d)" using charCode_inj by blast
  then show ?thesis by (simp add: isWhiteSpace_def) (simp add: charCode_def)
qed

lemma whiteSpace_not_word: "isWhiteSpace c \<Longrightarrow> \<not> isWordChar c"
  by (auto simp: isWhiteSpace_code isWordChar_code)

lemma toUpper_colon: "toUpper c = CHR '':'' \<longleftrightarrow> c = CHR '':''"
proof
  assume "toUpper c = CHR '':''"
  then have "charCode (toUpper c) = 58" by (simp add: charCode_def)
  then have "charCode c = 58" by (simp add: charCode_toUpper split: if_splits) arith
  moreover have "charCode CHR '':'' = 58" by (simp add: charCode_def)
  ultimately have "charCode c = charCode CHR '':''" by (simp only:)
  then show "c = CHR '':''" by (rule charCode_inj)
next
  have "toUpper CHR '':'' = CHR '':''" by code_simp
  moreover assume "c = CHR '':''"
  ultimately show "toUpper c = CHR '':''" by (simp only:)
qed

lemma toUpper_other:
  assumes "charCode p < 65 \<or> (90 < charCode p \<and> charCode p < 97) \<or>
           (122 < charCode p \<and> charCode p < 192)"
  shows "toUpper c = toUpper p \<longleftrightarrow> c = p"
proof
  assume "toUpper c = toUpper p"
  then have "charCode (toUpper c) = charCode (toUpper p)" by simp
  with assms have "charCode c = charCode p"
    unfolding charCode_toUpper by (auto split: if_splits)
  then show "c = p" by (rule charCode_inj)
qed simp

lemma charCode_toLower:
  "charCode (toLower c) =
     (if (65 \<le> charCode c \<and> charCode c \<le> 90) \<or>
         (192 \<le> charCode c \<and> charCode c \<le> 222 \<and> charCode c \<noteq> 215)
      then charCode c + 32 else charCode c)"
  using charCode_lt [of c] by (simp add: toLower_def Let_def charCode_char_of)

lemma takeWhile_stop:
  "\<forall>x \<in> set w. P x \<Longrightarrow> rest = [] \<or> \<not> P (hd rest) \<Longrightarrow>
   takeWhile P (w @ rest) = w \<and> dropWhile P (w @ rest) = rest"
  by (cases rest) (simp_all add: takeWhile_append2 dropWhile_append2)

lemma noneBefore_nth: "noneBefore P n t \<Longrightarrow> j < n \<Longrightarrow> \<not> P (drop j t)"
  by (simp add: noneBefore_def list_all_iff)

lemma startsWith_append: "startsWith (t @ b) t"
  by (induction t) simp_all

lemma startsWith_decomp: "startsWith s p \<Longrightarrow> s = p @ drop (length p) s"
  by (induction s p rule: startsWith.induct) simp_all

lemma includesStr_startsWith: "startsWith s t \<Longrightarrow> includesStr s t"
  by (cases s; cases t) simp_all

lemma includesStr_append: "includesStr (a @ t @ b) t"
proof (induction a)
  case Nil
  show ?case by (simp add: includesStr_startsWith startsWith_append)
next
  case (Cons x a)
  then show ?case by simp
qed

lemma includesTag_append: "tagAt t s \<Longrightarrow> s \<noteq> [] \<Longrightarrow> includesTag (a @ s) t"
proof (induction a)
  case Nil
  then show ?case by (cases s) simp_all
next
  case (Cons x a)
  then show ?case by simp
qed

lemma trim_idem: "trim (trim s) = trim s"
proof -
  define t where "t = dropWhile isWhiteSpace s"
  define u where "u = dropWhile isWhiteSpace (rev t)"
  have ts: "trim s = rev u" by (simp add: trim_def t_def u_def)
  have "rev t = takeWhile isWhiteSpace (rev t) @ u" by (simp add: u_def)
  then have t: "t = rev u @ rev (takeWhile isWhiteSpace (rev t))"
    by (metis rev_append rev_rev_ident)
  have "dropWhile isWhiteSpace (rev u) = rev u"
  proof (cases "rev u = []")
    case True
    then show ?thesis by simp
  next
    case False
    with t have "hd (rev u) = hd t" by (metis hd_append2)
    moreover from False t have "t \<noteq> []" by auto
    then have "\<not> isWhiteSpace (hd t)" unfolding t_def by (rule hd_dropWhile)
    ultimately show ?thesis using False by (simp add: dropWhile_eq_self_iff)
  qed
  moreover have "dropWhile isWhiteSpace u = u" by (simp add: u_def)
  ultimately have "trim (rev u) = rev u" by (simp add: trim_def)
  then show ?thesis by (simp add: ts)
qed

lemma trim_id: "s \<noteq> [] \<Longrightarrow> \<not> isWhiteSpace (hd s) \<Longrightarrow> \<not> isWhiteSpace (last s) \<Longrightarrow> trim s = s"
proof -
  assume s: "s \<noteq> []" and h: "\<not> isWhiteSpace (hd s)" and l: "\<not> isWhiteSpace (last s)"
  from s h have 1: "dropWhile isWhiteSpace s = s" by (cases s) simp_all
  from s l have "dropWhile isWhiteSpace (rev s) = rev s"
    by (cases s rule: rev_cases) simp_all
  with 1 show ?thesis by (simp add: trim_def)
qed

lemma camelSpace_ends:
  "s \<noteq> [] \<Longrightarrow> camelSpace s \<noteq> [] \<and> hd (camelSpace s) = hd s \<and> last (camelSpace s) = last s"
  by (induction s rule: camelSpace.induct) auto

lemma trim_camelSpace:
  assumes "s \<noteq> []" "isWordChar (hd s)" "isWordChar (last s)"
  shows "trim (camelSpace s) = camelSpace s"
proof -
  from camelSpace_ends [OF assms(1)] assms(2,3) whiteSpace_not_word
  have "camelSpace s \<noteq> []" "\<not> isWhiteSpace (hd (camelSpace s))" "\<not> isWhiteSpace (last (camelSpace s))"
    by auto
  then show ?thesis by (rule trim_id)
qed


section \<open>The matcher\<close>

subsection \<open>Characters and literals\<close>

lemma inCset_Chr_wordChar: "inCset True (Chr p) x \<Longrightarrow> isWordChar p \<Longrightarrow> isWordChar x"
  using isWordChar_toUpper [of x] isWordChar_toUpper [of p] by simp

lemma accepts_hex:
  "isHexDigit c \<Longrightarrow> accepts True (In [Rng CHR ''0'' CHR ''9'', Rng CHR ''A'' CHR ''F'']) c"
  by (auto simp: isHexDigit_def isDigit_def inRange_def charCode_toUpper charCode_consts)

lemma accepts_hex_iff:
  "accepts True (In [Rng CHR ''0'' CHR ''9'', Rng CHR ''A'' CHR ''F'']) c \<longleftrightarrow> isHexDigit c"
  by (auto simp: isHexDigit_def isDigit_def inRange_def charCode_toUpper charCode_toLower
      charCode_consts split: if_splits)

lemma accepts_not_colon: "accepts True (NotIn [Chr CHR '':'']) c \<longleftrightarrow> c \<noteq> CHR '':''"
  using toUpper_colon [of c] toUpper_colon [of "CHR '':''"] by simp

lemma accepts_identifier:
  "accepts False (In [Rng CHR ''A'' CHR ''Z'', Rng CHR ''a'' CHR ''z'', Rng CHR ''0'' CHR ''9'',
     Chr CHR ''_'']) c \<longleftrightarrow> isWordChar c"
  by (auto simp: isWordChar_def isLower_def isUpper_def isDigit_def)

lemma lits_Cons: "lits (a # p) = One (Is (Chr a)) # lits p"
  by (simp add: lits_def)

lemma lits_Nil: "lits [] = []"
  by (simp add: lits_def)

lemma litMatch_refl: "litMatch ci p p"
  unfolding litMatch_def by (induction p) simp_all

lemma litMatch_exact: "litMatch False w p \<longleftrightarrow> w = p"
  unfolding litMatch_def by (simp add: list_all2_eq)

lemma litMatch_length: "litMatch ci w p \<Longrightarrow> length w = length p"
  unfolding litMatch_def by (rule list_all2_lengthD)

lemma litMatch_last:
  "litMatch ci w p \<Longrightarrow> p \<noteq> [] \<Longrightarrow> w \<noteq> [] \<and> inCset ci (Chr (last p)) (last w)"
  unfolding litMatch_def
  by (induction w p rule: list_all2_induct) auto

lemma litMatch_toUpper: "litMatch True w p \<Longrightarrow> map toUpper w = map toUpper p"
  unfolding litMatch_def by (induction w p rule: list_all2_induct) simp_all

lemma litMatch_Cons:
  "litMatch ci w (p # ps) \<longleftrightarrow> (\<exists>x v. w = x # v \<and> inCset ci (Chr p) x \<and> litMatch ci v ps)"
  unfolding litMatch_def by (auto simp: list_all2_Cons2)

lemma litMatch_other:
  assumes "\<forall>p \<in> set ps. charCode p < 65 \<or> (90 < charCode p \<and> charCode p < 97) \<or>
           (122 < charCode p \<and> charCode p < 192)"
  shows "litMatch ci w ps \<longleftrightarrow> w = ps"
  using assms
proof (induction ps arbitrary: w)
  case Nil
  show ?case by (simp add: litMatch_def)
next
  case (Cons p ps)
  then have p: "\<And>c. toUpper c = toUpper p \<longleftrightarrow> c = p" by (intro toUpper_other) simp
  from Cons have ih: "\<And>v. litMatch ci v ps \<longleftrightarrow> v = ps" by simp
  show ?case unfolding litMatch_Cons by (auto simp: p ih)
qed

lemma litMatch_append1:
  "litMatch ci (b @ c) p \<Longrightarrow> litMatch ci c (drop (length b) p)"
  unfolding litMatch_def by (auto simp del: inCset.simps simp: list_all2_append1)

subsection \<open>What a match implies\<close>

lemma reaches_here: "run ci ys bef rest opened cap = Some r \<Longrightarrow> reaches ci ys bef rest r"
  unfolding reaches_def by (rule exI [of _ "[]"]) auto

lemma reaches_step: "reaches ci ys (c # bef) cs r \<Longrightarrow> reaches ci ys bef (c # cs) r"
  unfolding reaches_def
proof (elim exE conjE)
  fix w rest' opened' cap'
  assume a: "cs = w @ rest'" and b: "run ci ys (rev w @ c # bef) rest' opened' cap' = Some r"
  show "\<exists>w rest' opened' cap'. c # cs = w @ rest' \<and> run ci ys (rev w @ bef) rest' opened' cap' = Some r"
    by (rule exI [of _ "c # w"], rule exI [of _ rest'], rule exI [of _ opened'], rule exI [of _ cap'])
       (use a b in simp)
qed

lemma run_append:
  "run ci (xs @ ys) bef rest opened cap = Some r \<Longrightarrow> reaches ci ys bef rest r"
proof (induction rest arbitrary: xs bef opened cap)
  case Nil
  then show ?case
  proof (induction xs arbitrary: bef opened cap)
    case Nil
    then show ?case by (simp add: reaches_here)
  next
    case (Cons x its)
    then show ?case by (cases x) (auto split: if_splits)
  qed
next
  case (Cons c cs)
  note outer = Cons.IH
  from Cons.prems show ?case
  proof (induction xs arbitrary: bef opened cap)
    case Nil
    then show ?case by (simp add: reaches_here)
  next
    case (Cons x its)
    show ?case
    proof (cases x)
      case (One m)
      with Cons.prems show ?thesis
        by (auto split: if_splits intro: reaches_step outer)
    next
      case (Star m)
      with Cons.prems show ?thesis
        using outer [of "Star m # its"] Cons.IH
        by (auto split: if_splits option.splits intro: reaches_step)
    next
      case (Plus m)
      with Cons.prems show ?thesis
        using outer [of "Star m # its"]
        by (auto split: if_splits intro: reaches_step)
    next
      case (LazyStar m)
      with Cons.prems show ?thesis
        using outer [of "LazyStar m # its"] Cons.IH
        by (auto split: if_splits option.splits intro: reaches_step)
    next
      case GroupOpen
      with Cons.prems Cons.IH show ?thesis by auto
    next
      case GroupClose
      with Cons.prems Cons.IH show ?thesis by auto
    next
      case WordB
      with Cons.prems Cons.IH show ?thesis by (auto split: if_splits)
    next
      case Bol
      with Cons.prems Cons.IH show ?thesis by (auto split: if_splits)
    next
      case Eol
      with Cons.prems Cons.IH show ?thesis by (auto split: if_splits)
    qed
  qed
qed

lemma run_lits:
  "run ci (lits p @ its) bef rest opened cap = Some r \<Longrightarrow>
   \<exists>w rest'. rest = w @ rest' \<and> litMatch ci w p \<and>
     run ci its (rev w @ bef) rest' opened cap = Some r"
proof (induction p arbitrary: bef rest)
  case Nil
  then show ?case
    by (rule_tac x = "[]" in exI, rule_tac x = rest in exI) (simp add: lits_Nil litMatch_def)
next
  case (Cons a p)
  show ?case
  proof (cases rest)
    case Nil
    with Cons.prems show ?thesis by (simp add: lits_Cons)
  next
    case (Cons x xs)
    with Cons.prems have acc: "inCset ci (Chr a) x"
      and "run ci (lits p @ its) (x # bef) xs opened cap = Some r"
      by (simp_all add: lits_Cons split: if_splits)
    from Cons.IH [OF this(2)] obtain w rest' where
      "xs = w @ rest'" "litMatch ci w p" "run ci its (rev w @ x # bef) rest' opened cap = Some r"
      by blast
    with acc Cons show ?thesis
      by (intro exI [of _ "x # w"] exI [of _ rest']) (simp add: litMatch_def)
  qed
qed

lemma run_Star_struct:
  "run ci (Star m # its) bef rest opened cap = Some r \<Longrightarrow>
   \<exists>w rest'. rest = w @ rest' \<and> (\<forall>x \<in> set w. accepts ci m x) \<and>
     run ci its (rev w @ bef) rest' opened cap = Some r"
proof (induction rest arbitrary: bef)
  case Nil
  then show ?case by (intro exI [of _ "[]"]) simp
next
  case (Cons c cs)
  show ?case
  proof (cases "accepts ci m c \<and> run ci (Star m # its) (c # bef) cs opened cap \<noteq> None")
    case True
    with Cons.prems have "run ci (Star m # its) (c # bef) cs opened cap = Some r" by auto
    from Cons.IH [OF this] obtain w rest' where
      "cs = w @ rest'" "\<forall>x \<in> set w. accepts ci m x"
      "run ci its (rev w @ c # bef) rest' opened cap = Some r"
      by blast
    with True show ?thesis
      by (intro exI [of _ "c # w"] exI [of _ rest']) simp
  next
    case False
    with Cons.prems have "run ci its bef (c # cs) opened cap = Some r"
      by (auto split: if_splits option.splits)
    then show ?thesis
      by (intro exI [of _ "[]"] exI [of _ "c # cs"]) simp
  qed
qed

lemma run_Plus_struct:
  assumes "run ci (Plus m # its) bef rest opened cap = Some r"
  shows "\<exists>w rest'. rest = w @ rest' \<and> w \<noteq> [] \<and> (\<forall>x \<in> set w. accepts ci m x) \<and>
     run ci its (rev w @ bef) rest' opened cap = Some r"
proof (cases rest)
  case Nil
  with assms show ?thesis by simp
next
  case (Cons c cs)
  with assms have c: "accepts ci m c"
    and "run ci (Star m # its) (c # bef) cs opened cap = Some r"
    by (simp_all split: if_splits)
  from run_Star_struct [OF this(2)] obtain w rest' where
    "cs = w @ rest'" "\<forall>x \<in> set w. accepts ci m x"
    "run ci its (rev w @ c # bef) rest' opened cap = Some r"
    by blast
  with c Cons show ?thesis
    by (intro exI [of _ "c # w"] exI [of _ rest']) simp
qed

lemma run_WordB:
  "run ci (WordB # its) bef rest opened cap = Some r \<Longrightarrow> atWordBoundary bef rest"
  by (simp split: if_splits)

lemma search_Some:
  "search ci its bef rest = Some m \<Longrightarrow>
   \<exists>pre rest'. rest = pre @ rest' \<and> index m = length bef + length pre \<and>
     run ci its (rev pre @ bef) rest' 0 None = Some (group1 m, after m)"
proof (induction rest arbitrary: bef)
  case Nil
  then show ?case by (auto split: option.splits)
next
  case (Cons c cs)
  show ?case
  proof (cases "run ci its bef (c # cs) 0 None")
    case None
    with Cons.prems have "search ci its (c # bef) cs = Some m" by simp
    from Cons.IH [OF this] obtain pre rest' where
      "cs = pre @ rest'" "index m = length (c # bef) + length pre"
      "run ci its (rev pre @ c # bef) rest' 0 None = Some (group1 m, after m)"
      by blast
    then show ?thesis
      by (intro exI [of _ "c # pre"] exI [of _ rest']) simp
  next
    case (Some r)
    with Cons.prems show ?thesis
      by (intro exI [of _ "[]"] exI [of _ "c # cs"]) (auto split: prod.splits)
  qed
qed

lemma search_leftmost:
  "search ci its bef rest = Some m \<Longrightarrow> i < index m - length bef \<Longrightarrow>
   run ci its (rev (take i rest) @ bef) (drop i rest) 0 None = None"
proof (induction rest arbitrary: bef i)
  case Nil
  then show ?case by (auto split: option.splits prod.splits)
next
  case (Cons c cs)
  show ?case
  proof (cases "run ci its bef (c # cs) 0 None")
    case None
    with Cons.prems(1) have s: "search ci its (c # bef) cs = Some m" by simp
    show ?thesis
    proof (cases i)
      case 0
      with None show ?thesis by simp
    next
      case (Suc j)
      with Cons.prems(2) have "j < index m - length (c # bef)" by simp
      from Cons.IH [OF s this] Suc show ?thesis by simp
    qed
  next
    case (Some r)
    with Cons.prems show ?thesis by (auto split: prod.splits)
  qed
qed

lemma run_keeps_cap:
  "GroupClose \<notin> set its \<Longrightarrow> run ci its bef rest opened cap = Some (cap', aft) \<Longrightarrow> cap' = cap"
  by (induction ci its bef rest opened cap rule: run.induct)
     (auto split: if_splits option.splits)

lemma group_captured:
  assumes "run ci (xs @ GroupClose # ys) bef rest opened cap = Some (cap', aft)"
    and "GroupClose \<notin> set ys"
  shows "cap' \<noteq> None"
proof -
  from run_append [OF assms(1)] obtain w rest' opened' cap'' where
    "run ci (GroupClose # ys) (rev w @ bef) rest' opened' cap'' = Some (cap', aft)"
    unfolding reaches_def by blast
  then have "run ci ys (rev w @ bef) rest' opened'
      (Some (rev (take (length (rev w @ bef) - opened') (rev w @ bef)))) = Some (cap', aft)"
    by simp
  from run_keeps_cap [OF assms(2) this] show ?thesis by simp
qed

lemma search_captured:
  assumes "search ci (xs @ GroupClose # ys) bef rest = Some m" and "GroupClose \<notin> set ys"
  shows "group1 m \<noteq> None"
proof -
  from search_Some [OF assms(1)] obtain pre rest' where
    "run ci (xs @ GroupClose # ys) (rev pre @ bef) rest' 0 None = Some (group1 m, after m)"
    by blast
  from group_captured [OF this assms(2)] show ?thesis .
qed

subsection \<open>When the matcher succeeds or fails\<close>

lemma run_lits_ok:
  "litMatch ci w p \<Longrightarrow>
   run ci (lits p @ its) bef (w @ rest) opened cap = run ci its (rev w @ bef) rest opened cap"
  unfolding litMatch_def
proof (induction w p arbitrary: bef rule: list_all2_induct)
  case Nil
  show ?case by (simp add: lits_Nil)
next
  case (Cons x w a p)
  then show ?case by (simp add: lits_Cons)
qed

lemma run_lits_fail:
  "\<not> litMatch ci (take (length p) rest) p \<Longrightarrow> run ci (lits p @ its) bef rest opened cap = None"
proof (rule ccontr)
  assume no: "\<not> litMatch ci (take (length p) rest) p"
  assume "run ci (lits p @ its) bef rest opened cap \<noteq> None"
  then obtain r where "run ci (lits p @ its) bef rest opened cap = Some r" by auto
  from run_lits [OF this] obtain w rest' where "rest = w @ rest'" and lm: "litMatch ci w p"
    by blast
  with litMatch_length [OF lm] have "take (length p) rest = w" by simp
  with lm no show False by simp
qed

lemma run_Star_ok:
  "\<forall>x \<in> set w. accepts ci m x \<Longrightarrow> rest = [] \<or> \<not> accepts ci m (hd rest) \<Longrightarrow>
   run ci its (rev w @ bef) rest opened cap = Some r \<Longrightarrow>
   run ci (Star m # its) bef (w @ rest) opened cap = Some r"
proof (induction w arbitrary: bef)
  case Nil
  then show ?case by (cases rest) auto
next
  case (Cons x w)
  from Cons.prems have "run ci (Star m # its) (x # bef) (w @ rest) opened cap = Some r"
    by (intro Cons.IH) simp_all
  with Cons.prems(1) show ?case by simp
qed

lemma run_Plus_ok:
  "w \<noteq> [] \<Longrightarrow> \<forall>x \<in> set w. accepts ci m x \<Longrightarrow> rest = [] \<or> \<not> accepts ci m (hd rest) \<Longrightarrow>
   run ci its (rev w @ bef) rest opened cap = Some r \<Longrightarrow>
   run ci (Plus m # its) bef (w @ rest) opened cap = Some r"
proof (cases w)
  case Nil
  assume "w \<noteq> []"
  with Nil show ?thesis by simp
next
  case (Cons x v)
  assume "\<forall>x \<in> set w. accepts ci m x" "rest = [] \<or> \<not> accepts ci m (hd rest)"
    "run ci its (rev w @ bef) rest opened cap = Some r"
  with Cons have "accepts ci m x" and "run ci (Star m # its) (x # bef) (v @ rest) opened cap = Some r"
    by (simp_all add: run_Star_ok)
  with Cons show ?thesis by simp
qed

lemma run_Lazy_past:
  "(\<And>j. j < length w \<Longrightarrow> accepts ci m (w ! j) \<and>
       (\<forall>bef'. run ci its bef' (drop j w @ rest) opened cap = None)) \<Longrightarrow>
   run ci (LazyStar m # its) bef (w @ rest) opened cap =
   run ci (LazyStar m # its) (rev w @ bef) rest opened cap"
proof (induction w arbitrary: bef)
  case Nil
  show ?case by simp
next
  case (Cons x w)
  from Cons.prems [of 0] have x: "accepts ci m x"
    and here: "run ci its bef (x # w @ rest) opened cap = None"
    by simp_all
  have "\<And>j. j < length w \<Longrightarrow> accepts ci m (w ! j) \<and>
       (\<forall>bef'. run ci its bef' (drop j w @ rest) opened cap = None)"
  proof -
    fix j assume "j < length w"
    with Cons.prems [of "Suc j"] show "accepts ci m (w ! j) \<and>
       (\<forall>bef'. run ci its bef' (drop j w @ rest) opened cap = None)"
      by simp
  qed
  from Cons.IH [of "x # bef", OF this] x here show ?case by simp
qed

lemma run_Lazy_struct:
  "run ci (LazyStar m # its) bef rest opened cap = Some r \<Longrightarrow>
   \<exists>w rest'. rest = w @ rest' \<and> (\<forall>x \<in> set w. accepts ci m x) \<and>
     run ci its (rev w @ bef) rest' opened cap = Some r \<and>
     (\<forall>j < length w. run ci its (rev (take j w) @ bef) (drop j w @ rest') opened cap = None)"
proof (induction rest arbitrary: bef)
  case Nil
  then show ?case by (intro exI [of _ "[]"]) simp
next
  case (Cons c cs)
  show ?case
  proof (cases "run ci its bef (c # cs) opened cap")
    case (Some r')
    with Cons.prems show ?thesis
      by (intro exI [of _ "[]"] exI [of _ "c # cs"]) simp
  next
    case None
    with Cons.prems have c: "accepts ci m c"
      and "run ci (LazyStar m # its) (c # bef) cs opened cap = Some r"
      by (simp_all split: if_splits)
    from Cons.IH [OF this(2)] obtain w rest' where
      w: "cs = w @ rest'" "\<forall>x \<in> set w. accepts ci m x"
      "run ci its (rev w @ c # bef) rest' opened cap = Some r"
      "\<forall>j < length w. run ci its (rev (take j w) @ c # bef) (drop j w @ rest') opened cap = None"
      by blast
    have "\<forall>j < length (c # w).
        run ci its (rev (take j (c # w)) @ bef) (drop j (c # w) @ rest') opened cap = None"
    proof (intro allI impI)
      fix j assume "j < length (c # w)"
      then show "run ci its (rev (take j (c # w)) @ bef) (drop j (c # w) @ rest') opened cap = None"
        using None w(1,4) by (cases j) simp_all
    qed
    with c w(1-3) show ?thesis
      by (intro exI [of _ "c # w"] exI [of _ rest']) simp
  qed
qed

lemma run_Lazy_here:
  "run ci its bef rest opened cap = Some r \<Longrightarrow>
   run ci (LazyStar m # its) bef rest opened cap = Some r"
  by (cases rest) simp_all

lemma search_here:
  "run ci its bef rest 0 None = Some (cap, aft) \<Longrightarrow>
   search ci its bef rest = Some (RMatch (length bef) cap aft)"
  by (cases rest) simp_all

lemma search_skip:
  "(\<And>i. i < length a \<Longrightarrow>
      run ci its (rev (take i a) @ bef) (drop i a @ rest) 0 None = None) \<Longrightarrow>
   search ci its bef (a @ rest) = search ci its (rev a @ bef) rest"
proof (induction a arbitrary: bef)
  case Nil
  show ?case by simp
next
  case (Cons x a)
  from Cons.prems [of 0] have here: "run ci its bef (x # a @ rest) 0 None = None" by simp
  have "\<And>i. i < length a \<Longrightarrow> run ci its (rev (take i a) @ x # bef) (drop i a @ rest) 0 None = None"
  proof -
    fix i assume "i < length a"
    with Cons.prems [of "Suc i"] show "run ci its (rev (take i a) @ x # bef) (drop i a @ rest) 0 None = None"
      by simp
  qed
  from Cons.IH [of "x # bef", OF this] here show ?case by simp
qed

lemma search_first:
  assumes first: "\<forall>j < length pre. \<not> matchesAt re (pre @ tail) j"
    and here: "run (ignoreCase re) (items re) (rev pre) tail 0 None = Some (cap, aft)"
  shows "regexMatch re (pre @ tail) = Some (RMatch (length pre) cap aft)"
proof -
  have skip: "\<And>i. i < length pre \<Longrightarrow>
      run (ignoreCase re) (items re) (rev (take i pre) @ []) (drop i pre @ tail) 0 None = None"
  proof -
    fix i assume i: "i < length pre"
    with first have "\<not> matchesAt re (pre @ tail) i" by simp
    then have "run (ignoreCase re) (items re) (rev (take i (pre @ tail))) (drop i (pre @ tail)) 0 None =
        None"
      unfolding matchesAt_def by blast
    with i show "run (ignoreCase re) (items re) (rev (take i pre) @ []) (drop i pre @ tail) 0 None = None"
      by simp
  qed
  from here have "search (ignoreCase re) (items re) (rev pre @ []) tail =
      Some (RMatch (length (rev pre @ [])) cap aft)"
    by (intro search_here) simp
  with search_skip [of pre "ignoreCase re" "items re" "[]" tail, OF skip]
  show ?thesis
    unfolding regexMatch_def by simp
qed

section \<open>The loops of the extractors\<close>

lemma regionsLoop_Cons:
  "regionsLoop acc ((k, s) # rest) =
     regionsLoop (case fieldRegion k s of None \<Rightarrow> acc | Some t \<Rightarrow> setAdd acc t) rest"
  by (simp add: fieldRegion_def Let_def split: option.splits)

lemma regionsLoop_Nil: "regionsLoop acc [] = acc"
  by (simp add: regionsLoop.simps)

lemma extractMonthIndex_Cons:
  "extractMonthIndex ((k, s) # rest) =
     (case fieldMonthIndex k s of None \<Rightarrow> extractMonthIndex rest | Some n \<Rightarrow> Some n)"
  by (simp add: fieldMonthIndex_def split: option.splits)

lemma set_setAdd: "set (setAdd acc t) = insert t (set acc)"
  by (auto simp: setAdd_def)



lemma set_regionsLoop:
  "set (regionsLoop acc row) = set acc \<union> {t. \<exists>(k, s) \<in> set row. fieldRegion k s = Some t}"
proof (induction row arbitrary: acc)
  case Nil
  then show ?case by simp
next
  case (Cons p row)
  obtain k s where p: "p = (k, s)" by (cases p)
  show ?case
    unfolding p regionsLoop_Cons Cons.IH
    by (cases "fieldRegion k s") (auto simp: set_setAdd)
qed

lemma length_setAdd: "length (setAdd acc t) \<le> Suc (length acc)"
  by (simp add: setAdd_def)

lemma length_regionsLoop:
  "length (regionsLoop acc row) \<le> length acc + length (filter (\<lambda>(k, s). fieldRegion k s \<noteq> None) row)"
proof (induction row arbitrary: acc)
  case Nil
  then show ?case by simp
next
  case (Cons p row)
  obtain k s where p: "p = (k, s)" by (cases p)
  show ?case
  proof (cases "fieldRegion k s")
    case None
    then show ?thesis unfolding p regionsLoop_Cons using Cons.IH [of acc] by simp
  next
    case (Some t)
    then show ?thesis unfolding p regionsLoop_Cons
      using Cons.IH [of "setAdd acc t"] length_setAdd [of acc t] by simp
  qed
qed

lemma extractMonthIndex_append:
  "\<forall>(k, s) \<in> set pre. fieldMonthIndex k s = None \<Longrightarrow>
   extractMonthIndex (pre @ row) = extractMonthIndex row"
proof (induction pre)
  case Nil
  then show ?case by simp
next
  case (Cons p pre)
  obtain k s where p: "p = (k, s)" by (cases p)
  from Cons.prems have "fieldMonthIndex k s = None" by (simp add: p)
  moreover from Cons.prems have "\<forall>(k, s) \<in> set pre. fieldMonthIndex k s = None" by simp
  ultimately show ?case
    using Cons.IH by (simp only: p append_Cons extractMonthIndex_Cons option.case)
qed

lemma extractMonthIndex_none:
  "\<forall>(k, s) \<in> set row. fieldMonthIndex k s = None \<Longrightarrow> extractMonthIndex row = None"
  using extractMonthIndex_append [of row "[]"] by (simp add: extractMonthIndex.simps)

lemma no_marker_no_index:
  "\<forall>(k, s) \<in> set row. regexTest condKeyRe k \<longrightarrow> \<not> includesStr s ''LCP_Fishing_Axolotl_MonthlyIndex''
   \<Longrightarrow> \<forall>(k, s) \<in> set row. fieldMonthIndex k s = None"
  by (auto simp: fieldMonthIndex_def)

section \<open>The loop of main\<close>

declare digitsOf.simps [simp del]

subsection \<open>The value of a numeral\<close>

text \<open>A number has at most \<open>k\<close> binary digits exactly when it is below \<open>2 ^ k\<close>. So
  \<open>toDouble\<close> leaves a number below \<open>2 ^ 53\<close> as it is, gives \<^verbatim>\<open>Infinity\<close> from \<open>2 ^ 1024\<close> on,
  and between them rounds to 53 binary digits: \<^verbatim>\<open>Number("9007199254740993")\<close> is
  9007199254740992.\<close>

lemma bitLength_le: "bitLength n \<le> k \<longleftrightarrow> n < 2 ^ k"
proof (induction k arbitrary: n)
  case 0
  show ?case by simp
next
  case (Suc k)
  have "bitLength n \<le> Suc k \<longleftrightarrow> n = 0 \<or> bitLength (n div 2) \<le> k"
    by (subst bitLength.simps) simp
  also have "\<dots> \<longleftrightarrow> n = 0 \<or> n div 2 < 2 ^ k" by (simp only: Suc.IH)
  also have "\<dots> \<longleftrightarrow> n < 2 ^ Suc k" by auto
  finally show ?case .
qed

declare bitLength.simps [simp del]

lemma toDouble_exact: "n < 2 ^ 53 \<Longrightarrow> toDouble n = enat n"
  using bitLength_le [of n 53] by (simp only: toDouble_def if_True)

lemma toDouble_infinity:
  assumes "2 ^ 1024 \<le> n"
  shows "toDouble n = \<infinity>"
proof -
  define e where "e = bitLength n - 53"
  define L :: nat where "L = 2 ^ 1024"
  have "(2::nat) ^ 53 \<le> 2 ^ 1024" by (rule power_increasing) simp_all
  from this assms have "2 ^ 53 \<le> n" by (rule order.trans)
  then have "\<not> n < 2 ^ 53" by (simp only: not_less)
  then have long: "\<not> bitLength n \<le> 53" unfolding bitLength_le .
  from assms have "\<not> n < 2 ^ 1024" by (simp only: not_less)
  then have "\<not> bitLength n \<le> 1024" unfolding bitLength_le .
  then have b: "1025 \<le> bitLength n" by simp
  then have be: "bitLength n - 1 = 52 + e" by (simp add: e_def)
  have "\<not> bitLength n \<le> bitLength n - 1" using b by simp
  then have "\<not> n < 2 ^ (bitLength n - 1)" unfolding bitLength_le .
  then have "2 ^ (52 + e) \<le> n" by (simp only: not_less be)
  then have n: "2 ^ 52 * 2 ^ e \<le> n" by (simp only: power_add)
  have "(2 ^ 52 * 2 ^ e) div 2 ^ e \<le> n div 2 ^ e" using n by (rule div_le_mono)
  moreover have "((2::nat) ^ 52 * 2 ^ e) div 2 ^ e = 2 ^ 52" by (rule nonzero_mult_div_cancel_right) simp
  ultimately have q: "2 ^ 52 \<le> n div 2 ^ e" by (simp only:)
  have "1024 \<le> 52 + e" using b by (simp add: e_def)
  then have "(2::nat) ^ 1024 \<le> 2 ^ (52 + e)" by (intro power_increasing) simp_all
  then have "L \<le> 2 ^ 52 * 2 ^ e" by (simp only: L_def power_add)
  also have "\<dots> \<le> (n div 2 ^ e) * 2 ^ e" using q by (rule mult_le_mono1)
  finally have lo: "L \<le> (n div 2 ^ e) * 2 ^ e" .
  have "(n div 2 ^ e) * 2 ^ e \<le> (n div 2 ^ e + 1) * 2 ^ e" by (rule mult_le_mono1) simp
  with lo have hi: "L \<le> (n div 2 ^ e + 1) * 2 ^ e" by (rule order.trans)
  have "toDouble n =
      (let q = n div 2 ^ e;
           r = n mod 2 ^ e;
           half = 2 ^ (e - 1);
           m = (if half < r \<or> (r = half \<and> odd q) then q + 1 else q)
       in if m * 2 ^ e < L then enat (m * 2 ^ e) else \<infinity>)"
    unfolding toDouble_def L_def e_def using long by (simp only: if_False Let_def)
  also have "\<dots> = \<infinity>"
    using lo hi by (simp add: Let_def not_less [symmetric])
  finally show ?thesis .
qed

lemma bitLength_numeral:
  "bitLength 0 = 0"
  "bitLength 1 = 1"
  "bitLength (Suc 0) = 1"
  "bitLength (numeral (Num.Bit0 k)) = Suc (bitLength (numeral k))"
  "bitLength (numeral (Num.Bit1 k)) = Suc (bitLength (numeral k))"
  by (subst bitLength.simps, simp)+

lemma toDouble_rounds:
  "toDouble 9007199254740993 = 9007199254740992"
  "toDouble 9007199254740995 = 9007199254740996"
  "toDouble 9007199254740997 = 9007199254740996"
  by (simp_all add: toDouble_def bitLength_numeral Let_def numeral_eq_enat)

lemma Number_exact: "decimalValue d < 2 ^ 53 \<Longrightarrow> Number d = enat (decimalValue d)"
  by (simp only: Number_def toDouble_exact)

lemma Number_rounds: "Number ''9007199254740993'' = 9007199254740992"
proof -
  have "decimalValue ''9007199254740993'' = 9007199254740993"
    by (simp add: decimalValue_def charCode_def)
  then show ?thesis by (simp only: Number_def toDouble_rounds)
qed

subsection \<open>The table\<close>

lemma decimalValue_snoc: "decimalValue (xs @ [c]) = 10 * decimalValue xs + (charCode c - 48)"
  by (simp add: decimalValue_def)

lemma charCode_digit: "d < 10 \<Longrightarrow> charCode (char_of (48 + d)) = 48 + d"
  by (simp add: charCode_def)

lemma decimalValue_digitsOf: "decimalValue (digitsOf n) = n"
proof (induction n rule: digitsOf.induct)
  case (1 n)
  show ?case
  proof (cases "n < 10")
    case True
    then show ?thesis
      using charCode_digit [of n] by (simp add: digitsOf.simps [of n] decimalValue_def)
  next
    case False
    then have "decimalValue (digitsOf (n div 10)) = n div 10" by (rule "1.IH")
    moreover have "charCode (char_of (48 + n mod 10)) = 48 + n mod 10"
      by (rule charCode_digit) simp
    ultimately show ?thesis
      using False by (simp add: digitsOf.simps [of n] decimalValue_snoc)
  qed
qed

lemma String_inj: "String a = String b \<Longrightarrow> a = b"
  unfolding String_def by (metis decimalValue_digitsOf)

lemma rowMonth_Some:
  "rowMonth r = Some idx \<longleftrightarrow> extractMonthIndex r = Some (enat idx) \<and> 1 \<le> idx \<and> idx \<le> 12"
proof (cases "extractMonthIndex r")
  case None
  then show ?thesis by (simp add: rowMonth_def)
next
  case (Some v)
  show ?thesis
  proof (cases v)
    case (enat n)
    with Some show ?thesis
      by (auto simp: rowMonth_def zero_enat_def one_enat_def numeral_eq_enat)
  next
    case infinity
    with Some show ?thesis by (simp add: rowMonth_def)
  qed
qed

lemma monthsLoop_Cons:
  "monthsLoop m (r # rs) =
     monthsLoop (case rowMonth r of None \<Rightarrow> m | Some idx \<Rightarrow> m(String idx \<mapsto> mkEntry r)) rs"
  by (simp add: rowMonth_def split: option.splits)

lemma monthsLoop_append: "monthsLoop m (xs @ ys) = monthsLoop (monthsLoop m xs) ys"
proof (induction xs arbitrary: m)
  case Nil
  show ?case by simp
next
  case (Cons r xs)
  show ?case by (simp only: append_Cons monthsLoop_Cons Cons.IH)
qed

lemma dom_monthsLoop:
  "dom (monthsLoop m rows) = dom m \<union> String ` {idx. \<exists>r \<in> set rows. rowMonth r = Some idx}"
proof (induction rows arbitrary: m)
  case Nil
  show ?case by simp
next
  case (Cons r rows)
  show ?case
    unfolding monthsLoop_Cons Cons.IH
    by (cases "rowMonth r") auto
qed

lemma monthsLoop_untouched:
  "\<forall>r \<in> set rows. rowMonth r \<noteq> Some idx \<Longrightarrow> monthsLoop m rows (String idx) = m (String idx)"
proof (induction rows arbitrary: m)
  case Nil
  show ?case by simp
next
  case (Cons r rows)
  then have ih: "\<And>m'. monthsLoop m' rows (String idx) = m' (String idx)" by simp
  from Cons.prems have ne: "rowMonth r \<noteq> Some idx" by simp
  show ?case
  proof (cases "rowMonth r")
    case None
    then show ?thesis by (simp only: monthsLoop_Cons ih option.case)
  next
    case (Some j)
    from Some ne have "String j \<noteq> String idx" by (auto dest: String_inj)
    have "monthsLoop m (r # rows) (String idx) = (m(String j \<mapsto> mkEntry r)) (String idx)"
      by (simp only: monthsLoop_Cons Some option.case ih)
    with \<open>String j \<noteq> String idx\<close> show ?thesis by simp
  qed
qed

lemma String_1_12:
  "String ` {idx. 1 \<le> idx \<and> idx \<le> 12} =
     {''12'', ''11'', ''10'', ''9'', ''8'', ''7'', ''6'', ''5'', ''4'', ''3'', ''2'', ''1''}"
proof -
  have "{idx::nat. 1 \<le> idx \<and> idx \<le> 12} = {1, 2, 3, 4, 5, 6, 7, 8, 9, 10, 11, 12}"
    by (auto, arith)
  moreover have "String 1 = ''1''" "String 2 = ''2''" "String 3 = ''3''" "String 4 = ''4''"
    "String 5 = ''5''" "String 6 = ''6''" "String 7 = ''7''" "String 8 = ''8''"
    "String 9 = ''9''" "String 10 = ''10''" "String 11 = ''11''" "String 12 = ''12''"
    by code_simp+
  ultimately show ?thesis by auto
qed

declare extractMonthIndex.simps [simp del] regionsLoop.simps [simp del] monthsLoop.simps [simp del]

section \<open>Rows and parsing\<close>

lemma set_assign: "set (assign k v row) \<subseteq> insert (k, v) (set row)"
  by (induction row) (auto split: if_splits)

lemma keys_assign_list:
  "keys (assign k v row) = (if k \<in> set (keys row) then keys row else keys row @ [k])"
  by (induction row) (force simp: keys_def)+

lemma keys_assign: "set (keys (assign k v row)) = insert k (set (keys row))"
  by (auto simp: keys_assign_list)

lemma set_setProp: "set (setProp row k v) \<subseteq> insert (k, v) (set row)"
  using set_assign [of k v row] by (auto simp: setProp_def)

lemma keys_setProp:
  "set (keys (setProp row k v)) =
     (if k = ''__proto__'' then set (keys row) else insert k (set (keys row)))"
  by (simp add: setProp_def keys_assign)

lemma map_of_assign: "map_of (assign k v row) = (map_of row)(k \<mapsto> v)"
  by (induction row) auto

text \<open>The loop of \<open>parseLine\<close> over the columns \<open>cs\<close>, started on \<open>row\<close>.\<close>

lemma fill_values:
  "(k, v) \<in> set (foldl (\<lambda>row c. setProp row (h c) (g c)) row cs) \<Longrightarrow>
   (k, v) \<in> set row \<or> (\<exists>c \<in> set cs. k = h c \<and> v = g c)"
proof (induction cs arbitrary: row)
  case Nil
  then show ?case by simp
next
  case (Cons c cs)
  from Cons.IH [of "setProp row (h c) (g c)"] Cons.prems
  have "(k, v) \<in> set (setProp row (h c) (g c)) \<or> (\<exists>c \<in> set cs. k = h c \<and> v = g c)"
    by simp
  with set_setProp [of row "h c" "g c"] show ?case by auto
qed

lemma fill_keys:
  "set (keys (foldl (\<lambda>row c. setProp row (h c) (g c)) row cs)) =
     set (keys row) \<union> (h ` set cs - {''__proto__''})"
proof (induction cs arbitrary: row)
  case Nil
  show ?case by simp
next
  case (Cons c cs)
  show ?case by (auto simp: Cons.IH keys_setProp)
qed

lemma fill_untouched:
  "k \<notin> h ` set cs \<Longrightarrow>
   map_of (foldl (\<lambda>row c. setProp row (h c) (g c)) row cs) k = map_of row k"
proof (induction cs arbitrary: row)
  case Nil
  show ?case by simp
next
  case (Cons c cs)
  then show ?case by (simp add: setProp_def map_of_assign)
qed

lemma fill_lookup:
  "distinct (map h cs) \<Longrightarrow> c \<in> set cs \<Longrightarrow> h c \<noteq> ''__proto__'' \<Longrightarrow>
   map_of (foldl (\<lambda>row c. setProp row (h c) (g c)) row cs) (h c) = Some (g c)"
proof (induction cs arbitrary: row)
  case Nil
  then show ?case by simp
next
  case (Cons c' cs)
  show ?case
  proof (cases "c = c'")
    case True
    with Cons.prems have "h c \<notin> h ` set cs" by auto
    from fill_untouched [OF this] True Cons.prems(3) show ?thesis
      by (simp add: setProp_def map_of_assign)
  next
    case False
    with Cons.prems Cons.IH [of "setProp row (h c') (g c')"] show ?thesis by simp
  qed
qed

lemma fill_cong:
  "(\<And>c. c \<in> set cs \<Longrightarrow> g c = g' c) \<Longrightarrow>
   foldl (\<lambda>row c. setProp row (h c) (g c)) row cs =
   foldl (\<lambda>row c. setProp row (h c) (g' c)) row cs"
  by (induction cs arbitrary: row) simp_all

lemma partAt_take: "c < n \<Longrightarrow> partAt (take n parts) c = partAt parts c"
  by (simp add: partAt_def)

lemma keys_parseLine: "set (keys (parseLine header line)) = set header - {''__proto__''}"
proof -
  have "(\<lambda>c. header ! c) ` set [0..<length header] = set header"
    using nth_image [of "length header" header] by simp
  then show ?thesis
    unfolding parseLine_def Let_def fill_keys by (simp add: keys_def)
qed

lemma values_parseLine: "(k, v) \<in> set (parseLine header line) \<Longrightarrow> trim v = v"
  unfolding parseLine_def Let_def
  by (drule fill_values) (auto simp: trim_idem)

text \<open>The record of a line has the header's field names other than \<^verbatim>\<open>__proto__\<close> as
  its keys; values beyond the header's length are passed over; and when the header's names
  are distinct the field of column \<open>c\<close> holds the trimmed value at \<open>c\<close>.\<close>

lemma parseLine_beyond_header:
  "set (keys (parseLine header line)) = set header - {''__proto__''} \<and>
   (take (length header) (splitOn CHR 0x09 line) = take (length header) (splitOn CHR 0x09 line') \<longrightarrow>
      parseLine header line = parseLine header line') \<and>
   (distinct header \<and> c < length header \<and> header ! c \<noteq> ''__proto__'' \<longrightarrow>
      getProp (parseLine header line) (header ! c) = Some (trim (partAt (splitOn CHR 0x09 line) c)))"
proof (intro conjI impI)
  show "set (keys (parseLine header line)) = set header - {''__proto__''}"
    by (rule keys_parseLine)
next
  assume eq: "take (length header) (splitOn CHR 0x09 line) = take (length header) (splitOn CHR 0x09 line')"
  have "\<And>c. c \<in> set [0..<length header] \<Longrightarrow>
      trim (partAt (splitOn CHR 0x09 line) c) = trim (partAt (splitOn CHR 0x09 line') c)"
  proof -
    fix c assume "c \<in> set [0..<length header]"
    then have "c < length header" by simp
    from partAt_take [OF this, of "splitOn CHR 0x09 line"] partAt_take [OF this, of "splitOn CHR 0x09 line'"] eq
    show "trim (partAt (splitOn CHR 0x09 line) c) = trim (partAt (splitOn CHR 0x09 line') c)"
      by simp
  qed
  then show "parseLine header line = parseLine header line'"
    unfolding parseLine_def Let_def by (rule fill_cong)
next
  assume a: "distinct header \<and> c < length header \<and> header ! c \<noteq> ''__proto__''"
  then have "distinct (map ((!) header) [0..<length header])"
    by (simp add: map_nth)
  moreover from a have "c \<in> set [0..<length header]" by simp
  ultimately show "getProp (parseLine header line) (header ! c) =
      Some (trim (partAt (splitOn CHR 0x09 line) c))"
    unfolding parseLine_def Let_def getProp_def using a
    by (intro fill_lookup [where h = "(!) header"]) simp_all
qed

lemma parseTSV_rows:
  "r \<in> set (parseTSV tsvText) \<Longrightarrow> \<exists>header line. r = parseLine header line"
  by (auto simp: parseTSV_def Let_def split: list.splits)

lemma isAxoRow_parsed:
  assumes "r \<in> set (parseTSV tsvText)"
  shows "isAxoRow r \<longleftrightarrow> getProp r ''LVLI_EDID'' = Some ''Fishing_LLS_FishCollection_Axolotls''"
proof (cases "getProp r ''LVLI_EDID''")
  case None
  have "trim [] \<noteq> ''Fishing_LLS_FishCollection_Axolotls''" by (simp add: trim_def)
  with None show ?thesis by (simp add: isAxoRow_def)
next
  case (Some v)
  then have "(''LVLI_EDID'', v) \<in> set r" by (simp add: getProp_def map_of_SomeD)
  with assms have "trim v = v" by (auto dest!: parseTSV_rows values_parseLine)
  with Some show ?thesis by (simp add: isAxoRow_def)
qed

section \<open>Sorting by modification time\<close>

lemma set_insertBy: "set (insertBy cmp x ys) = insert x (set ys)"
  by (induction ys) auto

lemma set_sortBy: "set (sortBy cmp xs) = set xs"
  unfolding sortBy_def by (induction xs) (simp_all add: set_insertBy)

lemma sortBy_Cons: "sortBy cmp (x # xs) = insertBy cmp x (sortBy cmp xs)"
  by (simp add: sortBy_def)

lemma hd_insertBy:
  "hd (insertBy cmp x ys) = (if ys = [] \<or> cmp x (hd ys) \<le> 0 then x else hd ys)"
  by (cases ys) simp_all

lemma hd_sortBy_newest:
  fixes f :: "'a \<Rightarrow> real"
  assumes "xs \<noteq> []"
  shows "hd (sortBy (\<lambda>a b. f b - f a) xs) \<in> set xs \<and>
    (\<forall>q \<in> set xs. f q \<le> f (hd (sortBy (\<lambda>a b. f b - f a) xs)))"
  using assms
proof (induction xs)
  case Nil
  then show ?case by simp
next
  case (Cons x xs)
  let ?s = "sortBy (\<lambda>a b. f b - f a) xs"
  show ?case
  proof (cases "xs = []")
    case True
    then show ?thesis by (simp add: sortBy_def)
  next
    case False
    with Cons.IH have ih: "hd ?s \<in> set xs" "\<forall>q \<in> set xs. f q \<le> f (hd ?s)" by simp_all
    from False have ne: "?s \<noteq> []" using set_sortBy [of "\<lambda>a b. f b - f a" xs] by auto
    show ?thesis
    proof (cases "f (hd ?s) - f x \<le> 0")
      case True
      with ne have "hd (sortBy (\<lambda>a b. f b - f a) (x # xs)) = x"
        by (simp add: sortBy_Cons hd_insertBy)
      with True ih show ?thesis by fastforce
    next
      case False
      with ne have "hd (sortBy (\<lambda>a b. f b - f a) (x # xs)) = hd ?s"
        by (simp add: sortBy_Cons hd_insertBy)
      with False ih show ?thesis by fastforce
    qed
  qed
qed

section \<open>The expressions of the program\<close>

text \<open>Group 1 is part of every match of the three expressions that have a group.\<close>

lemma group_of_match:
  "regexMatch monthRe s = Some m \<Longrightarrow> group1 m \<noteq> None"
  "regexMatch fishRe s = Some m \<Longrightarrow> group1 m \<noteq> None"
  "regexMatch regionRe s = Some m \<Longrightarrow> group1 m \<noteq> None"
proof -
  assume "regexMatch monthRe s = Some m"
  then have "search True ((lits ''MonthlyIndex'' @ [Plus (Is SpaceC)] @ lits ''[GLOB:'' @
     [Plus (In [Rng CHR ''0'' CHR ''9'', Rng CHR ''A'' CHR ''F''])] @ lits '']'' @
     [LazyStar AnyC, GroupOpen, Plus (Is DigitC)]) @ GroupClose # (lits ''.000000'' @ [WordB])) [] s = Some m"
    by (simp add: regexMatch_def monthRe_def)
  then show "group1 m \<noteq> None"
    by (rule search_captured) (auto simp: lits_def)
next
  assume "regexMatch fishRe s = Some m"
  then have "search True ((lits '':'' @ [GroupOpen, Plus (NotIn [Chr CHR '':''])]) @
      GroupClose # (lits '':FISH'' @ [WordB])) [] s = Some m"
    by (simp add: regexMatch_def fishRe_def)
  then show "group1 m \<noteq> None"
    by (rule search_captured) (auto simp: lits_def)
next
  assume "regexMatch regionRe s = Some m"
  then have "search False (([WordB, GroupOpen] @ lits ''LocRegion'' @
     [Plus (In [Rng CHR ''A'' CHR ''Z'', Rng CHR ''a'' CHR ''z'', Rng CHR ''0'' CHR ''9'',
                Chr CHR ''_''])]) @ GroupClose # (Plus (Is SpaceC) # lits ''[KYWD:'')) [] s = Some m"
    by (simp add: regexMatch_def regionRe_def)
  then show "group1 m \<noteq> None"
    by (rule search_captured) (auto simp: lits_def)
qed

subsection \<open>The reference of the fish\<close>

lemma fishRe_needs_tag:
  assumes "regexMatch fishRe ref = Some m"
  shows "includesTag (map toUpper ref) '':FISH''"
proof -
  let ?ys = "lits '':FISH'' @ [WordB]"
  let ?xs = "lits '':'' @ [GroupOpen, Plus (NotIn [Chr CHR '':'']), GroupClose]"
  from assms have "search True (?xs @ ?ys) [] ref = Some m"
    by (simp add: regexMatch_def fishRe_def)
  from search_Some [OF this] obtain pre rest' where
    ref: "ref = pre @ rest'" and
    "run True (?xs @ ?ys) (rev pre @ []) rest' 0 None = Some (group1 m, after m)"
    by blast
  from run_append [OF this(2)] obtain v rest'' opened' cap' where
    rest': "rest' = v @ rest''" and
    "run True ?ys (rev v @ rev pre @ []) rest'' opened' cap' = Some (group1 m, after m)"
    unfolding reaches_def by blast
  from run_lits [OF this(2)] obtain w aft where
    rest'': "rest'' = w @ aft" and lm: "litMatch True w '':FISH''" and
    "run True [WordB] (rev w @ rev v @ rev pre @ []) aft opened' cap' = Some (group1 m, after m)"
    by blast
  from run_WordB [OF this(3)] have wb: "atWordBoundary (rev w @ rev v @ rev pre @ []) aft" .
  from litMatch_last [OF lm] have w: "w \<noteq> []" and "inCset True (Chr CHR ''H'') (last w)"
    by simp_all
  then have "isWordChar (last w)"
    by (rule_tac inCset_Chr_wordChar) (assumption, code_simp)
  with w wb have aft: "case aft of [] \<Rightarrow> True | c # _ \<Rightarrow> \<not> isWordChar c"
    by (cases w rule: rev_cases; cases aft) (simp_all add: atWordBoundary_def)
  from litMatch_toUpper [OF lm] have "map toUpper w = map toUpper '':FISH''" .
  also have "\<dots> = '':FISH''" by code_simp
  finally have up: "map toUpper w = '':FISH''" .
  have "tagAt '':FISH'' ('':FISH'' @ map toUpper aft)"
    unfolding tagAt_def using aft
    by (cases aft) (simp_all add: isWordChar_toUpper)
  then have "includesTag (map toUpper (pre @ v) @ ('':FISH'' @ map toUpper aft)) '':FISH''"
    by (rule includesTag_append) simp
  moreover have "map toUpper ref = map toUpper (pre @ v) @ ('':FISH'' @ map toUpper aft)"
    by (simp add: ref rest' rest'' up)
  ultimately show ?thesis by simp
qed

lemma fishRe_match:
  assumes a: "CHR '':'' \<notin> set a"
    and seg: "seg \<noteq> []" "CHR '':'' \<notin> set seg"
    and tag: "litMatch True tag '':FISH''"
    and post: "post = [] \<or> \<not> isWordChar (hd post)"
  shows "regexMatch fishRe (a @ '':'' @ seg @ tag @ post) = Some (RMatch (length a) (Some seg) post)"
proof -
  define its1 where "its1 = [GroupOpen, Plus (NotIn [Chr CHR '':'']), GroupClose] @ lits '':FISH'' @ [WordB]"
  have its: "items fishRe = lits '':'' @ its1" by (simp add: fishRe_def its1_def)
  define tail where "tail = '':'' @ seg @ tag @ post"
  have skip: "\<And>i. i < length a \<Longrightarrow>
      run True (items fishRe) (rev (take i a) @ []) (drop i a @ tail) 0 None = None"
  proof -
    fix i assume i: "i < length a"
    then obtain c cs where d: "drop i a = c # cs" by (cases "drop i a") simp_all
    then have "c \<in> set a" by (metis in_set_dropD list.set_intros(1))
    with a have "c \<noteq> CHR '':''" by auto
    then have "\<not> inCset True (Chr CHR '':'') c" using toUpper_colon [of c] toUpper_colon [of "CHR '':''"] by simp
    then show "run True (items fishRe) (rev (take i a) @ []) (drop i a @ tail) 0 None = None"
      unfolding its d by (simp add: lits_Cons)
  qed
  from litMatch_last [OF tag] have tne: "tag \<noteq> []" and "inCset True (Chr CHR ''H'') (last tag)"
    by simp_all
  then have lw: "isWordChar (last tag)"
    by (rule_tac inCset_Chr_wordChar) (assumption, code_simp)
  from tag obtain t ts where tg: "tag = t # ts" and "inCset True (Chr CHR '':'') t"
    unfolding litMatch_def by (cases tag) auto
  then have t: "t = CHR '':''" using toUpper_colon [of t] toUpper_colon [of "CHR '':''"] by simp
  have wb: "\<And>b. atWordBoundary (rev tag @ b) post"
    using post lw tne by (cases tag rule: rev_cases; cases post) (simp_all add: atWordBoundary_def)
  have r3: "\<And>b opened. run True (lits '':FISH'' @ [WordB]) b (tag @ post) opened (Some seg) = Some (Some seg, post)"
    by (simp only: run_lits_ok [OF tag]) (simp add: wb)
  have r2: "\<And>b. run True (GroupClose # lits '':FISH'' @ [WordB]) (rev seg @ b) (tag @ post) (length b) None
      = Some (Some seg, post)"
    by (simp add: r3)
  have acc: "\<forall>x \<in> set seg. accepts True (NotIn [Chr CHR '':'']) x"
    using seg(2) by (auto simp: accepts_not_colon simp del: accepts.simps)
  have nacc: "tag @ post = [] \<or> \<not> accepts True (NotIn [Chr CHR '':'']) (hd (tag @ post))"
    by (simp add: tg t accepts_not_colon del: accepts.simps)
  have r1: "\<And>b. run True (Plus (NotIn [Chr CHR '':'']) # GroupClose # lits '':FISH'' @ [WordB]) b
      (seg @ tag @ post) (length b) None = Some (Some seg, post)"
    by (rule run_Plus_ok [OF seg(1) acc nacc r2])
  have "run True (items fishRe) (rev a @ []) tail 0 None = Some (Some seg, post)"
    unfolding its tail_def its1_def
    by (simp only: run_lits_ok [OF litMatch_refl]) (simp add: r1 [of "'':'' @ rev a", simplified])
  then have "search True (items fishRe) (rev a @ []) tail = Some (RMatch (length (rev a @ [])) (Some seg) post)"
    by (rule search_here)
  with search_skip [of a True "items fishRe" "[]" tail, OF skip]
  have "search True (items fishRe) [] (a @ tail) = Some (RMatch (length a) (Some seg) post)"
    by simp
  then show ?thesis
    unfolding regexMatch_def tail_def by (simp add: fishRe_def)
qed

lemma prettyFromFishRef_shape:
  assumes a: "CHR '':'' \<notin> set a"
    and seg: "seg \<noteq> []" "CHR '':'' \<notin> set seg"
    and tag: "litMatch True tag '':FISH''"
    and post: "post = [] \<or> \<not> isWordChar (hd post)"
  shows "prettyFromFishRef (Some (a @ '':'' @ seg @ tag @ post)) =
    trim (camelSpace (last (splitOn CHR ''_'' seg)))"
proof -
  define ref where "ref = a @ '':'' @ seg @ tag @ post"
  have m: "regexMatch fishRe ref = Some (RMatch (length a) (Some seg) post)"
    unfolding ref_def by (rule fishRe_match [OF assms])
  have ne: "splitOn CHR ''_'' seg \<noteq> []" by (cases seg) (simp_all split: list.splits)
  then have "splitOn CHR ''_'' seg ! (length (splitOn CHR ''_'' seg) - 1) = last (splitOn CHR ''_'' seg)"
    by (simp add: last_conv_nth)
  then have "prettyFromFishRef (Some ref) = trim (camelSpace (last (splitOn CHR ''_'' seg)))"
    by (simp add: prettyFromFishRef_def m captured_def Let_def)
  then show ?thesis unfolding ref_def .
qed

subsection \<open>The monthly index\<close>

lemma monthRe_tail:
  assumes d: "d \<noteq> []" "\<forall>c \<in> set d. isDigit c"
    and post: "post = [] \<or> \<not> isWordChar (hd post)"
  shows "run True ([GroupOpen, Plus (Is DigitC), GroupClose] @ lits ''.000000'' @ [WordB])
           bef (d @ ''.000000'' @ post) opened cap = Some (Some d, post)"
proof -
  let ?fin = "GroupClose # lits ''.000000'' @ [WordB]"
  have z: "isWordChar CHR ''0''" by code_simp
  have wb: "atWordBoundary (rev ''.000000'' @ rev d @ bef) post"
    using post z by (cases post) (simp_all add: atWordBoundary_def)
  have "run True [WordB] (rev ''.000000'' @ rev d @ bef) post (length bef) (Some d) = Some (Some d, post)"
    using wb by simp
  then have "run True (lits ''.000000'' @ [WordB]) (rev d @ bef) (''.000000'' @ post) (length bef) (Some d)
      = Some (Some d, post)"
    by (simp only: run_lits_ok [OF litMatch_refl])
  then have fin: "run True ?fin (rev d @ bef) (''.000000'' @ post) (length bef) cap = Some (Some d, post)"
    by simp
  have nd: "\<not> accepts True (Is DigitC) (hd (''.000000'' @ post))" by (simp, code_simp)
  have "run True (Plus (Is DigitC) # ?fin) bef (d @ ''.000000'' @ post) (length bef) cap = Some (Some d, post)"
    by (rule run_Plus_ok [OF d(1) _ _ fin]) (use d(2) nd in auto)
  then show ?thesis by simp
qed

lemma numeral_struct:
  assumes "run ci ([GroupOpen, Plus (Is DigitC), GroupClose] @ lits ''.000000'' @ [WordB])
             bef t opened cap = Some r"
  shows "\<exists>d post. t = d @ ''.000000'' @ post \<and> d \<noteq> [] \<and> (\<forall>c \<in> set d. isDigit c) \<and>
           (post = [] \<or> \<not> isWordChar (hd post)) \<and> r = (Some d, post)"
proof -
  define Z where "Z = ''.000000''"
  have other: "\<forall>p \<in> set Z. charCode p < 65 \<or> (90 < charCode p \<and> charCode p < 97) \<or>
           (122 < charCode p \<and> charCode p < 192)"
    unfolding Z_def by (simp add: charCode_def)
  from assms have "run ci (Plus (Is DigitC) # GroupClose # lits Z @ [WordB])
      bef t (length bef) cap = Some r"
    by (simp add: Z_def)
  from run_Plus_struct [OF this] obtain w rest' where
    t: "t = w @ rest'" and w: "w \<noteq> []" "\<forall>x \<in> set w. isDigit x"
    and "run ci (GroupClose # lits Z @ [WordB]) (rev w @ bef) rest' (length bef) cap = Some r"
    by auto
  then have "run ci (lits Z @ [WordB]) (rev w @ bef) rest' (length bef) (Some w) = Some r"
    by simp
  from run_lits [OF this] obtain v aft where
    rest': "rest' = v @ aft" and "litMatch ci v Z"
    and wb: "run ci [WordB] (rev v @ rev w @ bef) aft (length bef) (Some w) = Some r"
    by auto
  with litMatch_other [OF other] have v: "v = Z" by simp
  have z: "isWordChar (hd (rev Z @ rev w @ bef))" unfolding Z_def by (simp, code_simp)
  have ne: "rev Z @ rev w @ bef \<noteq> []" by (simp add: Z_def)
  from run_WordB [OF wb] z ne have aft: "aft = [] \<or> \<not> isWordChar (hd aft)"
    unfolding v atWordBoundary_def by (cases "rev Z @ rev w @ bef"; cases aft) auto
  from wb have "r = (Some w, aft)" by (simp split: if_splits)
  with t rest' v w aft show ?thesis
    unfolding Z_def by (intro exI [of _ w] exI [of _ aft]) simp
qed

lemma numeralAt_shape:
  "numeralAt t \<longleftrightarrow>
     (\<exists>d post. t = d @ ''.000000'' @ post \<and> d \<noteq> [] \<and> (\<forall>c \<in> set d. isDigit c) \<and>
        (post = [] \<or> \<not> isWordChar (hd post)))"
proof
  assume n: "numeralAt t"
  define d where "d = takeWhile isDigit t"
  define r where "r = dropWhile isDigit t"
  define post where "post = drop 7 r"
  from n have d: "d \<noteq> []" and tag: "tagAt ''.000000'' r"
    by (simp_all add: numeralAt_def d_def r_def)
  define Z where "Z = ''.000000''"
  have lZ: "length Z = 7" by (simp add: Z_def)
  from tag have "startsWith r Z" by (simp add: tagAt_def Z_def)
  from startsWith_decomp [OF this] have "r = Z @ post" by (simp only: lZ post_def)
  then have r: "r = ''.000000'' @ post" by (simp only: Z_def)
  from tag have "case drop (length Z) r of [] \<Rightarrow> True | c # _ \<Rightarrow> \<not> isWordChar c"
    unfolding tagAt_def Z_def by blast
  then have "post = [] \<or> \<not> isWordChar (hd post)"
    unfolding lZ post_def [symmetric] by (cases post) simp_all
  moreover have "t = d @ r" by (simp add: d_def r_def)
  moreover have "\<forall>c \<in> set d. isDigit c" unfolding d_def by (auto dest: set_takeWhileD)
  ultimately show "\<exists>d post. t = d @ ''.000000'' @ post \<and> d \<noteq> [] \<and> (\<forall>c \<in> set d. isDigit c) \<and>
        (post = [] \<or> \<not> isWordChar (hd post))"
    using d r by blast
next
  assume "\<exists>d post. t = d @ ''.000000'' @ post \<and> d \<noteq> [] \<and> (\<forall>c \<in> set d. isDigit c) \<and>
        (post = [] \<or> \<not> isWordChar (hd post))"
  then obtain d post where t: "t = d @ ''.000000'' @ post" and d: "d \<noteq> []" "\<forall>c \<in> set d. isDigit c"
    and post: "post = [] \<or> \<not> isWordChar (hd post)"
    by blast
  have nd: "''.000000'' @ post = [] \<or> \<not> isDigit (hd (''.000000'' @ post))" by (simp, code_simp)
  from takeWhile_stop [OF d(2) nd]
  have "takeWhile isDigit t = d" and "dropWhile isDigit t = ''.000000'' @ post"
    unfolding t by simp_all
  moreover have "tagAt ''.000000'' (''.000000'' @ post)"
    using post startsWith_append [of "''.000000''" post] by (cases post) (simp_all add: tagAt_def)
  ultimately show "numeralAt t" using d(1) by (simp add: numeralAt_def)
qed

lemma numeral_run:
  "run True ([GroupOpen, Plus (Is DigitC), GroupClose] @ lits ''.000000'' @ [WordB])
     bef t opened cap \<noteq> None \<longleftrightarrow> numeralAt t"
proof
  assume "run True ([GroupOpen, Plus (Is DigitC), GroupClose] @ lits ''.000000'' @ [WordB])
     bef t opened cap \<noteq> None"
  then obtain r where "run True ([GroupOpen, Plus (Is DigitC), GroupClose] @ lits ''.000000'' @ [WordB])
     bef t opened cap = Some r"
    by blast
  from numeral_struct [OF this] show "numeralAt t" unfolding numeralAt_shape by blast
next
  assume "numeralAt t"
  then obtain d post where "t = d @ ''.000000'' @ post" "d \<noteq> []" "\<forall>c \<in> set d. isDigit c"
    "post = [] \<or> \<not> isWordChar (hd post)"
    unfolding numeralAt_shape by blast
  with monthRe_tail [of d post bef opened cap]
  show "run True ([GroupOpen, Plus (Is DigitC), GroupClose] @ lits ''.000000'' @ [WordB])
     bef t opened cap \<noteq> None"
    by simp
qed

lemma monthRe_lazy:
  assumes mid: "\<forall>c \<in> set mid. c \<noteq> CHR 0x0A \<and> c \<noteq> CHR 0x0D"
      "noneBefore numeralAt (length mid) (mid @ d @ ''.000000'' @ post)"
    and d: "d \<noteq> []" "\<forall>c \<in> set d. isDigit c"
    and post: "post = [] \<or> \<not> isWordChar (hd post)"
  shows "run True (LazyStar AnyC # [GroupOpen, Plus (Is DigitC), GroupClose] @ lits ''.000000'' @ [WordB])
           bef (mid @ d @ ''.000000'' @ post) opened cap = Some (Some d, post)"
proof -
  let ?its = "[GroupOpen, Plus (Is DigitC), GroupClose] @ lits ''.000000'' @ [WordB]"
  let ?rest = "d @ ''.000000'' @ post"
  have "\<And>j. j < length mid \<Longrightarrow> accepts True AnyC (mid ! j) \<and>
       (\<forall>bef'. run True ?its bef' (drop j mid @ ?rest) opened cap = None)"
  proof -
    fix j assume j: "j < length mid"
    from noneBefore_nth [OF mid(2) j] have no: "\<not> numeralAt (drop j mid @ ?rest)"
      using j by simp
    have "\<And>bef'. run True ?its bef' (drop j mid @ ?rest) opened cap = None"
      using no numeral_run by blast
    moreover from mid(1) j have "accepts True AnyC (mid ! j)" by simp
    ultimately show "accepts True AnyC (mid ! j) \<and>
       (\<forall>bef'. run True ?its bef' (drop j mid @ ?rest) opened cap = None)"
      by blast
  qed
  then have "run True (LazyStar AnyC # ?its) bef (mid @ ?rest) opened cap =
      run True (LazyStar AnyC # ?its) (rev mid @ bef) ?rest opened cap"
    by (rule run_Lazy_past)
  also have "\<dots> = Some (Some d, post)"
    by (rule run_Lazy_here) (rule monthRe_tail [OF d post])
  finally show ?thesis .
qed

lemma monthRe_at_header:
  assumes P: "litMatch True P ''MonthlyIndex''" and G: "litMatch True G ''[GLOB:''"
    and ws: "ws \<noteq> []" "\<forall>c \<in> set ws. isWhiteSpace c"
    and hex: "hex \<noteq> []" "\<forall>c \<in> set hex. isHexDigit c"
    and mid: "\<forall>c \<in> set mid. c \<noteq> CHR 0x0A \<and> c \<noteq> CHR 0x0D"
      "noneBefore numeralAt (length mid) (mid @ d @ ''.000000'' @ post)"
    and d: "d \<noteq> []" "\<forall>c \<in> set d. isDigit c"
    and post: "post = [] \<or> \<not> isWordChar (hd post)"
  shows "run True (items monthRe) bef
           (P @ ws @ G @ hex @ '']'' @ mid @ d @ ''.000000'' @ post) 0 None =
         Some (Some d, post)"
proof -
  let ?hexc = "In [Rng CHR ''0'' CHR ''9'', Rng CHR ''A'' CHR ''F'']"
  let ?its5 = "LazyStar AnyC # [GroupOpen, Plus (Is DigitC), GroupClose] @ lits ''.000000'' @ [WordB]"
  let ?its4 = "lits '']'' @ ?its5"
  let ?its3 = "Plus ?hexc # ?its4"
  let ?its2 = "lits ''[GLOB:'' @ ?its3"
  let ?its1 = "Plus (Is SpaceC) # ?its2"
  let ?t5 = "mid @ d @ ''.000000'' @ post"
  have its: "items monthRe = lits ''MonthlyIndex'' @ ?its1"
    by (simp add: monthRe_def)
  have r5: "\<And>b. run True ?its5 b ?t5 0 None = Some (Some d, post)"
    by (rule monthRe_lazy [OF mid d post])
  have r4: "\<And>b. run True ?its4 b ('']'' @ ?t5) 0 None = Some (Some d, post)"
    by (simp only: run_lits_ok [OF litMatch_refl] r5)
  have nh: "\<not> accepts True ?hexc (hd ('']'' @ ?t5))" by (simp, code_simp)
  have hexacc: "\<forall>x \<in> set hex. accepts True ?hexc x" using hex(2) accepts_hex by blast
  have wsacc: "\<forall>x \<in> set ws. accepts True (Is SpaceC) x" using ws(2) by simp
  have r3: "\<And>b. run True ?its3 b (hex @ '']'' @ ?t5) 0 None = Some (Some d, post)"
    by (rule run_Plus_ok [OF hex(1) hexacc _ r4]) (rule disjI2, rule nh)
  have r2: "\<And>b. run True ?its2 b (G @ hex @ '']'' @ ?t5) 0 None = Some (Some d, post)"
    by (simp only: run_lits_ok [OF G] r3)
  have "toUpper (hd G) = toUpper CHR ''[''" and "G \<noteq> []"
    using G unfolding litMatch_Cons by auto
  moreover have "charCode CHR ''['' = 91" by (simp add: charCode_def)
  ultimately have "hd (G @ hex @ '']'' @ ?t5) = CHR ''[''"
    using toUpper_other [of "CHR ''[''" "hd G"] by simp
  moreover have "\<not> isWhiteSpace CHR ''[''" by code_simp
  ultimately have ns: "\<not> accepts True (Is SpaceC) (hd (G @ hex @ '']'' @ ?t5))" by simp
  have r1: "\<And>b. run True ?its1 b (ws @ G @ hex @ '']'' @ ?t5) 0 None = Some (Some d, post)"
    by (rule run_Plus_ok [OF ws(1) wsacc _ r2]) (rule disjI2, rule ns)
  show ?thesis
    unfolding its by (simp only: run_lits_ok [OF P] r1)
qed

lemma monthRe_match:
  assumes P: "litMatch True P ''MonthlyIndex''" and G: "litMatch True G ''[GLOB:''"
    and first: "\<forall>j < length pre. \<not> matchesAt monthRe
        (pre @ P @ ws @ G @ hex @ '']'' @ mid @ d @ ''.000000'' @ post) j"
    and ws: "ws \<noteq> []" "\<forall>c \<in> set ws. isWhiteSpace c"
    and hex: "hex \<noteq> []" "\<forall>c \<in> set hex. isHexDigit c"
    and mid: "\<forall>c \<in> set mid. c \<noteq> CHR 0x0A \<and> c \<noteq> CHR 0x0D"
      "noneBefore numeralAt (length mid) (mid @ d @ ''.000000'' @ post)"
    and d: "d \<noteq> []" "\<forall>c \<in> set d. isDigit c"
    and post: "post = [] \<or> \<not> isWordChar (hd post)"
  shows "regexMatch monthRe (pre @ P @ ws @ G @ hex @ '']'' @ mid @ d @ ''.000000'' @ post) =
         Some (RMatch (length pre) (Some d) post)"
proof -
  have ci: "ignoreCase monthRe = True" by (simp add: monthRe_def)
  have "run (ignoreCase monthRe) (items monthRe) (rev pre)
      (P @ ws @ G @ hex @ '']'' @ mid @ d @ ''.000000'' @ post) 0 None = Some (Some d, post)"
    unfolding ci by (rule monthRe_at_header [OF P G ws hex mid d post])
  with first show ?thesis by (rule search_first)
qed

lemma monthRe_match_shape:
  assumes "regexMatch monthRe s = Some mm"
  shows "\<exists>pre P ws G hex mid d post.
     s = pre @ P @ ws @ G @ hex @ '']'' @ mid @ d @ ''.000000'' @ post \<and>
     mm = RMatch (length pre) (Some d) post \<and>
     litMatch True P ''MonthlyIndex'' \<and> litMatch True G ''[GLOB:'' \<and>
     (\<forall>j < length pre. \<not> matchesAt monthRe s j) \<and>
     ws \<noteq> [] \<and> (\<forall>c \<in> set ws. isWhiteSpace c) \<and>
     hex \<noteq> [] \<and> (\<forall>c \<in> set hex. isHexDigit c) \<and>
     (\<forall>c \<in> set mid. c \<noteq> CHR 0x0A \<and> c \<noteq> CHR 0x0D) \<and>
     noneBefore numeralAt (length mid) (mid @ d @ ''.000000'' @ post) \<and>
     d \<noteq> [] \<and> (\<forall>c \<in> set d. isDigit c) \<and> (post = [] \<or> \<not> isWordChar (hd post))"
proof -
  let ?hexc = "In [Rng CHR ''0'' CHR ''9'', Rng CHR ''A'' CHR ''F'']"
  define Pm where "Pm = ''MonthlyIndex''"
  define Gm where "Gm = ''[GLOB:''"
  define B where "B = '']''"
  define num where "num = [GroupOpen, Plus (Is DigitC), GroupClose] @ lits ''.000000'' @ [WordB]"
  have its: "items monthRe =
      lits Pm @ Plus (Is SpaceC) # lits Gm @ Plus ?hexc # lits B @ LazyStar AnyC # num"
    by (simp add: monthRe_def Pm_def Gm_def B_def num_def)
  have ci: "ignoreCase monthRe = True" by (simp add: monthRe_def)
  from assms have srch: "search True (items monthRe) [] s = Some mm"
    by (simp add: regexMatch_def ci)
  from search_Some [OF srch] obtain pre t where
    s: "s = pre @ t" and idx: "index mm = length pre"
    and run0: "run True (items monthRe) (rev pre @ []) t 0 None = Some (group1 mm, after mm)"
    by auto
  have first: "\<forall>j < length pre. \<not> matchesAt monthRe s j"
  proof (intro allI impI)
    fix j assume "j < length pre"
    with idx have "j < index mm - length ([]::string)" by simp
    from search_leftmost [OF srch this] show "\<not> matchesAt monthRe s j"
      by (simp add: matchesAt_def ci)
  qed
  from run0 have "run True (lits Pm @ Plus (Is SpaceC) # lits Gm @ Plus ?hexc # lits B @ LazyStar AnyC # num)
      (rev pre @ []) t 0 None = Some (group1 mm, after mm)"
    by (simp only: its)
  from run_lits [OF this] obtain P t1 where
    t: "t = P @ t1" and P: "litMatch True P Pm"
    and "run True (Plus (Is SpaceC) # lits Gm @ Plus ?hexc # lits B @ LazyStar AnyC # num)
           (rev P @ rev pre @ []) t1 0 None = Some (group1 mm, after mm)"
    by blast
  from run_Plus_struct [OF this(3)] obtain ws t2 where
    t1: "t1 = ws @ t2" and ws: "ws \<noteq> []" "\<forall>x \<in> set ws. isWhiteSpace x"
    and "run True (lits Gm @ Plus ?hexc # lits B @ LazyStar AnyC # num)
           (rev ws @ rev P @ rev pre @ []) t2 0 None = Some (group1 mm, after mm)"
    by auto
  from run_lits [OF this(4)] obtain G t3 where
    t2: "t2 = G @ t3" and G: "litMatch True G Gm"
    and "run True (Plus ?hexc # lits B @ LazyStar AnyC # num)
           (rev G @ rev ws @ rev P @ rev pre @ []) t3 0 None = Some (group1 mm, after mm)"
    by blast
  from run_Plus_struct [OF this(3)] obtain hex t4 where
    t3: "t3 = hex @ t4" and hex: "hex \<noteq> []" "\<forall>x \<in> set hex. isHexDigit x"
    and "run True (lits B @ LazyStar AnyC # num)
           (rev hex @ rev G @ rev ws @ rev P @ rev pre @ []) t4 0 None = Some (group1 mm, after mm)"
    unfolding accepts_hex_iff by blast
  from run_lits [OF this(4)] obtain b t5 where
    t4: "t4 = b @ t5" and "litMatch True b B"
    and lazy: "run True (LazyStar AnyC # num)
           (rev b @ rev hex @ rev G @ rev ws @ rev P @ rev pre @ []) t5 0 None = Some (group1 mm, after mm)"
    by blast
  moreover have "\<forall>p \<in> set B. charCode p < 65 \<or> (90 < charCode p \<and> charCode p < 97) \<or>
           (122 < charCode p \<and> charCode p < 192)"
    unfolding B_def by (simp add: charCode_def)
  ultimately have b: "b = '']''" using litMatch_other B_def by blast
  from run_Lazy_struct [OF lazy] obtain mid t6 where
    t5: "t5 = mid @ t6" and mid: "\<forall>x \<in> set mid. x \<noteq> CHR 0x0A \<and> x \<noteq> CHR 0x0D"
    and numrun: "run True num (rev mid @ rev b @ rev hex @ rev G @ rev ws @ rev P @ rev pre @ []) t6 0 None =
        Some (group1 mm, after mm)"
    and fails: "\<forall>j < length mid.
        run True num (rev (take j mid) @ rev b @ rev hex @ rev G @ rev ws @ rev P @ rev pre @ [])
          (drop j mid @ t6) 0 None = None"
    by auto
  from numeral_struct [OF numrun [unfolded num_def]] obtain d post where
    t6: "t6 = d @ ''.000000'' @ post" and d: "d \<noteq> []" "\<forall>c \<in> set d. isDigit c"
    and post: "post = [] \<or> \<not> isWordChar (hd post)"
    and res: "(group1 mm, after mm) = (Some d, post)"
    by blast
  have nb: "noneBefore numeralAt (length mid) (mid @ d @ ''.000000'' @ post)"
    unfolding noneBefore_def list_all_iff
  proof
    fix j assume "j \<in> set [0..<length mid]"
    then have j: "j < length mid" by simp
    with fails have "run True num
        (rev (take j mid) @ rev b @ rev hex @ rev G @ rev ws @ rev P @ rev pre @ [])
        (drop j mid @ t6) 0 None = None"
      by blast
    then have "\<not> numeralAt (drop j mid @ t6)"
      unfolding num_def using numeral_run by blast
    with j show "\<not> numeralAt (drop j (mid @ d @ ''.000000'' @ post))"
      by (simp add: t6)
  qed
  from idx res have mm: "mm = RMatch (length pre) (Some d) post" by (cases mm) simp
  have "s = pre @ P @ ws @ G @ hex @ '']'' @ mid @ d @ ''.000000'' @ post"
    by (simp add: s t t1 t2 t3 t4 b t5 t6)
  with mm P G first ws hex mid nb d post show ?thesis
    unfolding Pm_def Gm_def by blast
qed

lemma monthRe_field:
  assumes k: "regexTest condKeyRe k"
    and marker: "includesStr s ''LCP_Fishing_Axolotl_MonthlyIndex''"
    and s: "s = pre @ P @ ws @ G @ hex @ '']'' @ mid @ d @ ''.000000'' @ post"
    and P: "litMatch True P ''MonthlyIndex''" and G: "litMatch True G ''[GLOB:''"
    and first: "\<forall>j < length pre. \<not> matchesAt monthRe s j"
    and ws: "ws \<noteq> []" "\<forall>c \<in> set ws. isWhiteSpace c"
    and hex: "hex \<noteq> []" "\<forall>c \<in> set hex. isHexDigit c"
    and mid: "\<forall>c \<in> set mid. c \<noteq> CHR 0x0A \<and> c \<noteq> CHR 0x0D"
      "noneBefore numeralAt (length mid) (mid @ d @ ''.000000'' @ post)"
    and d: "d \<noteq> []" "\<forall>c \<in> set d. isDigit c"
    and post: "post = [] \<or> \<not> isWordChar (hd post)"
  shows "fieldMonthIndex k s = Some (Number d)"
proof -
  have m: "regexMatch monthRe s = Some (RMatch (length pre) (Some d) post)"
    unfolding s by (rule monthRe_match [OF P G first [unfolded s] ws hex mid d post])
  from marker have "s \<noteq> []" by (cases s) simp_all
  with k marker show ?thesis
    by (simp add: fieldMonthIndex_def m captured_def)
qed

subsection \<open>The region token\<close>

lemma prettyFromLocRegion_token:
  assumes ident: "ident \<noteq> []" "\<forall>c \<in> set ident. isWordChar c"
  shows "prettyFromLocRegion (''LocRegion'' @ ident) = camelSpace ident \<and> camelSpace ident \<noteq> []"
proof -
  define P where "P = ''LocRegion''"
  have P: "P \<noteq> []" "isWordChar (hd P)" unfolding P_def by (simp, simp, code_simp)
  from ident have li: "isWordChar (last ident)" "isWordChar (hd ident)" by simp_all
  with whiteSpace_not_word P ident(1) have "trim (P @ ident) = P @ ident"
    by (intro trim_id) auto
  moreover have "regexMatch locRegionPrefixRe (P @ ident) = Some (RMatch 0 None ident)"
  proof -
    have "run True ([Bol] @ lits P) [] (P @ ident) 0 None = Some (None, ident)"
      using run_lits_ok [OF litMatch_refl, of True P "[]" "[]" ident 0 None] by simp
    from search_here [OF this] show ?thesis
      by (simp add: regexMatch_def locRegionPrefixRe_def P_def)
  qed
  ultimately have "prettyFromLocRegion (P @ ident) = trim (camelSpace ident)"
    by (simp add: prettyFromLocRegion_def replaceFirst_def Let_def)
  with trim_camelSpace [OF ident(1) li(2,1)] camelSpace_ends [OF ident(1)]
  show ?thesis unfolding P_def by simp
qed

lemma no_early_token:
  assumes a: "\<not> includesStr a ''LocRegion''" and i: "i < length a"
  shows "\<not> litMatch False (take 9 (drop i a @ ''LocRegion'' @ tail)) ''LocRegion''"
proof
  define P where "P = ''LocRegion''"
  have lP: "length P = 9" by (simp add: P_def)
  have c1: "list_all (\<lambda>n. \<not> litMatch False (take (9 - n) P) (drop n P)) [1..<9]"
    unfolding P_def by code_simp
  assume "litMatch False (take 9 (drop i a @ ''LocRegion'' @ tail)) ''LocRegion''"
  then have m: "litMatch False (take 9 (drop i a @ P @ tail)) P" by (simp only: P_def)
  define b where "b = drop i a"
  define n where "n = length b"
  from i have n: "0 < n" by (simp add: n_def b_def)
  show False
  proof (cases "9 \<le> n")
    case True
    then have "take 9 (b @ P @ tail) = take 9 b" by (simp add: n_def)
    with m have "litMatch False (take 9 b) P" unfolding b_def by (simp only:)
    then have "take 9 b = P" by (simp only: litMatch_exact)
    moreover have "take 9 b @ drop 9 b = b" by (rule append_take_drop_id)
    then have "a = take i a @ take 9 b @ drop 9 b"
      unfolding b_def by (simp only: append_take_drop_id)
    ultimately have "a = take i a @ P @ drop 9 b" by (simp only:)
    then have "includesStr a P" by (metis includesStr_append)
    with a show False by (simp add: P_def)
  next
    case False
    then have "take 9 (b @ P @ tail) = b @ take (9 - n) P"
      using lP by (simp add: n_def)
    with m have "litMatch False (b @ take (9 - n) P) P" unfolding b_def by (simp only:)
    from litMatch_append1 [OF this] have "litMatch False (take (9 - n) P) (drop n P)"
      by (simp add: n_def)
    moreover from n False have "n \<in> set [1..<9]" by simp
    ultimately show False using c1 unfolding list_all_iff by blast
  qed
qed

lemma regionRe_match:
  assumes a: "\<not> includesStr a ''LocRegion''"
    and aw: "a = [] \<or> \<not> isWordChar (last a)"
    and ident: "ident \<noteq> []" "\<forall>c \<in> set ident. isWordChar c"
    and ws: "ws \<noteq> []" "\<forall>c \<in> set ws. isWhiteSpace c"
  shows "regexMatch regionRe (a @ ''LocRegion'' @ ident @ ws @ ''[KYWD:'' @ b) =
    Some (RMatch (length a) (Some (''LocRegion'' @ ident)) b)"
proof -
  define P where "P = ''LocRegion''"
  define K where "K = ''[KYWD:''"
  define idc where "idc = In [Rng CHR ''A'' CHR ''Z'', Rng CHR ''a'' CHR ''z'', Rng CHR ''0'' CHR ''9'',
     Chr CHR ''_'']"
  define its1 where "its1 = [Plus idc, GroupClose, Plus (Is SpaceC)] @ lits K"
  define tail where "tail = ident @ ws @ K @ b"
  have its: "items regionRe = WordB # GroupOpen # lits P @ its1"
    by (simp add: regionRe_def its1_def idc_def P_def K_def)
  have lP: "length P = 9" by (simp add: P_def)
  have hP: "isWordChar (hd P)" "P \<noteq> []" unfolding P_def by (simp, code_simp, simp)
  have hK: "K \<noteq> []" "\<not> isWhiteSpace (hd K)" unfolding K_def by (simp, simp, code_simp)
  have skip: "\<And>i. i < length a \<Longrightarrow>
      run False (items regionRe) (rev (take i a) @ []) (drop i a @ P @ tail) 0 None = None"
  proof -
    fix i assume i: "i < length a"
    from no_early_token [OF a i, of tail, folded P_def]
    have "\<not> litMatch False (take (length P) (drop i a @ P @ tail)) P" by (simp add: lP)
    then have "\<And>bef opened. run False (lits P @ its1) bef (drop i a @ P @ tail) opened None = None"
      by (rule run_lits_fail)
    then show "run False (items regionRe) (rev (take i a) @ []) (drop i a @ P @ tail) 0 None = None"
      unfolding its by simp
  qed
  have acc: "\<forall>x \<in> set ident. accepts False idc x"
    using ident(2) unfolding idc_def by (simp only: accepts_identifier)
  have wsacc: "\<forall>x \<in> set ws. accepts False (Is SpaceC) x" using ws(2) by simp
  have nsp: "K @ b = [] \<or> \<not> accepts False (Is SpaceC) (hd (K @ b))"
    using hK by simp
  from ws have "\<not> isWordChar (hd ws)" by (intro whiteSpace_not_word) simp
  with ws(1) have nid: "(ws @ K @ b) = [] \<or> \<not> accepts False idc (hd (ws @ K @ b))"
    unfolding idc_def by (simp only: accepts_identifier) simp
  have r4: "\<And>bef opened cap. run False (lits K) bef (K @ b) opened cap = Some (cap, b)"
    using run_lits_ok [OF litMatch_refl, of False K "[]" _ b] by simp
  have r3: "\<And>bef opened cap.
      run False (Plus (Is SpaceC) # lits K) bef (ws @ K @ b) opened cap = Some (cap, b)"
    by (rule run_Plus_ok [OF ws(1) wsacc nsp r4])
  have r2: "\<And>bef. run False (GroupClose # Plus (Is SpaceC) # lits K)
      (rev ident @ rev P @ bef) (ws @ K @ b) (length bef) None = Some (Some (P @ ident), b)"
    by simp (rule r3)
  have r1: "\<And>bef. run False (Plus idc # GroupClose # Plus (Is SpaceC) # lits K)
      (rev P @ bef) (ident @ ws @ K @ b) (length bef) None = Some (Some (P @ ident), b)"
    by (rule run_Plus_ok [OF ident(1) acc nid]) (rule r2)
  have wb: "atWordBoundary (rev a) (P @ tail)"
    using aw hP by (cases a rule: rev_cases; cases P) (simp_all add: atWordBoundary_def)
  have "run False (lits P @ its1) (rev a) (P @ tail) (length a) None = Some (Some (P @ ident), b)"
    unfolding its1_def tail_def
    by (simp only: run_lits_ok [OF litMatch_refl]) (simp add: r1 [of "rev a", simplified])
  with wb have "run False (items regionRe) (rev a @ []) (P @ tail) 0 None = Some (Some (P @ ident), b)"
    unfolding its by simp
  then have "search False (items regionRe) (rev a @ []) (P @ tail) =
      Some (RMatch (length (rev a @ [])) (Some (P @ ident)) b)"
    by (rule search_here)
  with search_skip [of a False "items regionRe" "[]" "P @ tail", OF skip]
  have "search False (items regionRe) [] (a @ P @ tail) = Some (RMatch (length a) (Some (P @ ident)) b)"
    by simp
  then show ?thesis
    unfolding regexMatch_def tail_def P_def K_def by (simp add: regionRe_def)
qed

lemma fieldRegion_token:
  assumes k: "regexTest condKeyRe k"
    and a: "\<not> includesStr a ''LocRegion''"
    and aw: "a = [] \<or> \<not> isWordChar (last a)"
    and ident: "ident \<noteq> []" "\<forall>c \<in> set ident. isWordChar c"
    and ws: "ws \<noteq> []" "\<forall>c \<in> set ws. isWhiteSpace c"
  shows "fieldRegion k (a @ ''LocRegion'' @ ident @ ws @ ''[KYWD:'' @ b) = Some (camelSpace ident)"
proof -
  define s where "s = a @ ''LocRegion'' @ ident @ ws @ ''[KYWD:'' @ b"
  have m: "regexMatch regionRe s = Some (RMatch (length a) (Some (''LocRegion'' @ ident)) b)"
    unfolding s_def by (rule regionRe_match [OF a aw ident ws])
  have "s \<noteq> []" by (simp add: s_def)
  with k prettyFromLocRegion_token [OF ident] have "fieldRegion k s = Some (camelSpace ident)"
    by (simp add: fieldRegion_def m captured_def)
  then show ?thesis unfolding s_def .
qed

lemma fieldRegion_regionField:
  "regexTest condKeyRe k \<Longrightarrow> regionFieldOk a ident ws \<Longrightarrow>
   fieldRegion k (regionField a ident ws b) = Some (camelSpace ident)"
  unfolding regionField_def regionFieldOk_def list_all_iff
  by (rule fieldRegion_token) simp_all

section \<open>The claims\<close>

subsection \<open>C1: month index of a condition field\<close>

text \<open>
  C1, amended. Take a \<^verbatim>\<open>Cond\<close> column whose text holds the marker and reads: a text \<open>pre\<close>,
  the word \<^verbatim>\<open>MonthlyIndex\<close> (in any letter case: the marker's own, when the expression finds
  no other), white space, a tag \<^verbatim>\<open>[GLOB:...]\<close> of hexadecimal digits, a text \<open>mid\<close> without
  line breaks, and a numeral: the digits \<open>d\<close>, then \<^verbatim>\<open>.000000\<close> and no word character. Let
  the expression match from no position of \<open>pre\<close>, let no such numeral begin in \<open>mid\<close>, and
  let the expression match the text of no earlier \<^verbatim>\<open>Cond\<close> column that holds the marker. Then
  the row's month index is \<^verbatim>\<open>Number(d)\<close>, the double nearest to the number that the digits
  denote: with the numeral \<^verbatim>\<open>7.000000\<close> it is 7. With \<^verbatim>\<open>13.000000\<close> \<open>extractMonthIndex\<close>
  returns 13 and \<open>main\<close> passes the row over. A row none of whose \<^verbatim>\<open>Cond\<close> columns holds the
  marker yields no index. Every text that the expression matches reads as above
  (\<open>monthRe_match_shape\<close>).
\<close>

theorem month_index_extraction:
  assumes earlier: "\<forall>(k', s') \<in> set earlier.
        \<not> regexTest condKeyRe k' \<or> s' = [] \<or>
        \<not> includesStr s' ''LCP_Fishing_Axolotl_MonthlyIndex'' \<or> regexMatch monthRe s' = None"
    and k: "regexTest condKeyRe k"
    and marker: "includesStr s ''LCP_Fishing_Axolotl_MonthlyIndex''"
    and s: "s = pre @ P @ ws @ G @ hex @ '']'' @ mid @ d @ ''.000000'' @ post"
    and P: "litMatch True P ''MonthlyIndex''" and G: "litMatch True G ''[GLOB:''"
    and first: "\<forall>j < length pre. \<not> matchesAt monthRe s j"
    and ws: "ws \<noteq> []" "\<forall>c \<in> set ws. isWhiteSpace c"
    and hex: "hex \<noteq> []" "\<forall>c \<in> set hex. isHexDigit c"
    and mid: "\<forall>c \<in> set mid. c \<noteq> CHR 0x0A \<and> c \<noteq> CHR 0x0D"
      "noneBefore numeralAt (length mid) (mid @ d @ ''.000000'' @ post)"
    and d: "d \<noteq> []" "\<forall>c \<in> set d. isDigit c"
    and post: "post = [] \<or> \<not> isWordChar (hd post)"
  shows "extractMonthIndex (earlier @ (k, s) # later) = Some (Number d) \<and>
    (d = ''7'' \<longrightarrow> extractMonthIndex (earlier @ (k, s) # later) = Some 7) \<and>
    (d = ''13'' \<longrightarrow>
       extractMonthIndex (earlier @ (k, s) # later) = Some 13 \<and>
       monthsLoop m ((earlier @ (k, s) # later) # rs) = monthsLoop m rs) \<and>
    ((\<forall>(k, s) \<in> set row. regexTest condKeyRe k \<longrightarrow>
         \<not> includesStr s ''LCP_Fishing_Axolotl_MonthlyIndex'') \<longrightarrow>
       extractMonthIndex row = None)"
proof -
  from earlier have e: "\<forall>(k', s') \<in> set earlier. fieldMonthIndex k' s' = None"
    by (auto simp: fieldMonthIndex_def)
  from monthRe_field [OF k marker s P G first ws hex mid d post]
  have gen: "extractMonthIndex (earlier @ (k, s) # later) = Some (Number d)"
    by (simp only: extractMonthIndex_append [OF e] extractMonthIndex_Cons option.case)
  have n7: "Number ''7'' = 7" and n13: "Number ''13'' = 13" by code_simp+
  have i7: "d = ''7'' \<longrightarrow> extractMonthIndex (earlier @ (k, s) # later) = Some 7"
    using gen n7 by simp
  have i13: "d = ''13'' \<longrightarrow>
       extractMonthIndex (earlier @ (k, s) # later) = Some 13 \<and>
       monthsLoop m ((earlier @ (k, s) # later) # rs) = monthsLoop m rs"
  proof
    assume "d = ''13''"
    with gen n13 have x: "extractMonthIndex (earlier @ (k, s) # later) = Some 13" by simp
    then have "rowMonth (earlier @ (k, s) # later) = None"
      by (simp add: rowMonth_def)
    then have "monthsLoop m ((earlier @ (k, s) # later) # rs) = monthsLoop m rs"
      by (simp only: monthsLoop_Cons option.case)
    with x show "extractMonthIndex (earlier @ (k, s) # later) = Some 13 \<and>
       monthsLoop m ((earlier @ (k, s) # later) # rs) = monthsLoop m rs"
      by (intro conjI)
  qed
  have none: "(\<forall>(k, s) \<in> set row. regexTest condKeyRe k \<longrightarrow>
         \<not> includesStr s ''LCP_Fishing_Axolotl_MonthlyIndex'') \<longrightarrow>
       extractMonthIndex row = None"
    using no_marker_no_index [of row] extractMonthIndex_none [of row] by blast
  from gen i7 i13 none show ?thesis by (intro conjI)
qed

theorem month_index_extraction_witness:
  "extractMonthIndex
     [(''LVLI_EDID'', ''Fishing_LLS_FishCollection_Axolotls''),
      (''Cond1'', ''GetGlobalValue LCP_Fishing_Axolotl_MonthlyIndex [GLOB:0080070A] = 5 or 7.000000 AND'')] =
   Some 7 \<and>
   monthsLoop Map.empty
     [[(''LVLI_EDID'', ''Fishing_LLS_FishCollection_Axolotls''),
       (''Cond1'', ''GetGlobalValue LCP_Fishing_Axolotl_MonthlyIndex [GLOB:0080070A] = 13.000000 AND'')]] =
   Map.empty"
proof -
  define earlier where "earlier = [(''LVLI_EDID'', ''Fishing_LLS_FishCollection_Axolotls'')]"
  define pre where "pre = ''GetGlobalValue LCP_Fishing_Axolotl_''"
  define s7 where
    "s7 = pre @ ''MonthlyIndex'' @ '' '' @ ''[GLOB:'' @ ''0080070A'' @ '']'' @ '' = 5 or '' @ ''7'' @ ''.000000'' @ '' AND''"
  define s13 where
    "s13 = pre @ ''MonthlyIndex'' @ '' '' @ ''[GLOB:'' @ ''0080070A'' @ '']'' @ '' = '' @ ''13'' @ ''.000000'' @ '' AND''"
  have k: "regexTest condKeyRe ''Cond1''" by code_simp
  have "\<not> regexTest condKeyRe ''LVLI_EDID''" by code_simp
  then have earlier: "\<forall>(k', s') \<in> set earlier.
        \<not> regexTest condKeyRe k' \<or> s' = [] \<or>
        \<not> includesStr s' ''LCP_Fishing_Axolotl_MonthlyIndex'' \<or> regexMatch monthRe s' = None"
    by (simp add: earlier_def)
  have marker: "includesStr s7 ''LCP_Fishing_Axolotl_MonthlyIndex''"
      "includesStr s13 ''LCP_Fishing_Axolotl_MonthlyIndex''"
    unfolding s7_def s13_def pre_def by code_simp+
  have P: "litMatch True ''MonthlyIndex'' ''MonthlyIndex''" and G: "litMatch True ''[GLOB:'' ''[GLOB:''"
    by (rule litMatch_refl)+
  have "list_all (\<lambda>j. \<not> matchesAt monthRe s7 j) [0..<length pre]"
      "list_all (\<lambda>j. \<not> matchesAt monthRe s13 j) [0..<length pre]"
    unfolding s7_def s13_def pre_def by code_simp+
  then have first: "\<forall>j < length pre. \<not> matchesAt monthRe s7 j"
      "\<forall>j < length pre. \<not> matchesAt monthRe s13 j"
    by (simp_all add: list_all_iff)
  have ws: "'' '' \<noteq> []" "\<forall>c \<in> set '' ''. isWhiteSpace c" by (simp_all add: isWhiteSpace_def)
  have hex: "''0080070A'' \<noteq> []" "\<forall>c \<in> set ''0080070A''. isHexDigit c" by (simp_all, code_simp)
  have mid7: "\<forall>c \<in> set '' = 5 or ''. c \<noteq> CHR 0x0A \<and> c \<noteq> CHR 0x0D"
      "noneBefore numeralAt (length '' = 5 or '') ('' = 5 or '' @ ''7'' @ ''.000000'' @ '' AND'')"
    by (simp, code_simp)
  have mid13: "\<forall>c \<in> set '' = ''. c \<noteq> CHR 0x0A \<and> c \<noteq> CHR 0x0D"
      "noneBefore numeralAt (length '' = '') ('' = '' @ ''13'' @ ''.000000'' @ '' AND'')"
    by (simp, code_simp)
  have d7: "''7'' \<noteq> []" "\<forall>c \<in> set ''7''. isDigit c" by (simp_all, code_simp)
  have d13: "''13'' \<noteq> []" "\<forall>c \<in> set ''13''. isDigit c" by (simp_all, code_simp+)
  have post: "'' AND'' = [] \<or> \<not> isWordChar (hd '' AND'')" by (simp, code_simp)
  from month_index_extraction [OF earlier k marker(1) s7_def P G first(1) ws hex mid7 d7 post,
      where later = "[]"]
  have a: "extractMonthIndex (earlier @ [(''Cond1'', s7)]) = Some 7" by blast
  from month_index_extraction [OF earlier k marker(2) s13_def P G first(2) ws hex mid13 d13 post,
      where later = "[]" and m = Map.empty and rs = "[]"]
  have b: "monthsLoop Map.empty [earlier @ [(''Cond1'', s13)]] = monthsLoop Map.empty []" by blast
  from a b show ?thesis
    by (simp add: s7_def s13_def pre_def earlier_def monthsLoop.simps)
qed

text \<open>
  C1 as stated fails when the numeral follows the marker without a \<^verbatim>\<open>[GLOB:...]\<close> tag
  between them: the expression does not match, and the row yields no index.
\<close>

theorem marker_without_tag_counterexample:
  "extractMonthIndex [(''Cond1'', ''LCP_Fishing_Axolotl_MonthlyIndex 7.000000'')] = None"
  by code_simp

text \<open>Of two numerals behind the tag the first is read.\<close>

lemma first_numeral_decides:
  "extractMonthIndex
     [(''Cond1'', ''LCP_Fishing_Axolotl_MonthlyIndex [GLOB:0080070A] = 3.000000 OR 7.000000'')] =
   Some 3"
  by code_simp

subsection \<open>C2: scanning the condition fields\<close>

text \<open>
  C2, amended. \<^verbatim>\<open>Cond\<close> columns are scanned in order. A column without text, without the
  marker, or whose text the expression does not match is passed over. The first column whose
  text the expression matches decides: its numeral is the result of \<open>extractMonthIndex\<close>,
  whatever the later columns hold, and when it is outside 1..12 \<open>main\<close> passes the row over.
\<close>

theorem first_matching_field_decides:
  assumes earlier: "\<forall>(k', s') \<in> set earlier.
        \<not> regexTest condKeyRe k' \<or> s' = [] \<or>
        \<not> includesStr s' ''LCP_Fishing_Axolotl_MonthlyIndex'' \<or> regexMatch monthRe s' = None"
    and k: "regexTest condKeyRe k"
    and s: "includesStr s ''LCP_Fishing_Axolotl_MonthlyIndex''"
    and mm: "regexMatch monthRe s = Some mm"
  shows "extractMonthIndex (earlier @ (k, s) # later) = Some (Number (captured mm)) \<and>
    (Number (captured mm) < 1 \<or> 12 < Number (captured mm) \<longrightarrow>
       monthsLoop m ((earlier @ (k, s) # later) # rs) = monthsLoop m rs)"
proof -
  from earlier have e: "\<forall>(k', s') \<in> set earlier. fieldMonthIndex k' s' = None"
    by (auto simp: fieldMonthIndex_def)
  from s have "s \<noteq> []" by (cases s) simp_all
  with k s mm have "fieldMonthIndex k s = Some (Number (captured mm))"
    by (simp add: fieldMonthIndex_def)
  then have idx: "extractMonthIndex (earlier @ (k, s) # later) = Some (Number (captured mm))"
    by (simp only: extractMonthIndex_append [OF e] extractMonthIndex_Cons option.case)
  have "Number (captured mm) < 1 \<or> 12 < Number (captured mm) \<longrightarrow>
       monthsLoop m ((earlier @ (k, s) # later) # rs) = monthsLoop m rs"
  proof
    assume "Number (captured mm) < 1 \<or> 12 < Number (captured mm)"
    with idx have "rowMonth (earlier @ (k, s) # later) = None"
      by (auto simp: rowMonth_def)
    then show "monthsLoop m ((earlier @ (k, s) # later) # rs) = monthsLoop m rs"
      by (simp only: monthsLoop_Cons option.case)
  qed
  with idx show ?thesis by (intro conjI)
qed

theorem first_matching_field_decides_witness:
  "extractMonthIndex
     [(''Cond1'', ''GetGlobalValue LCP_Fishing_Axolotl_MonthlyIndex [GLOB:0080070A] = none''),
      (''Cond2'', ''GetGlobalValue LCP_Fishing_Axolotl_MonthlyIndex [GLOB:0080070A] = 7.000000''),
      (''Cond3'', ''GetGlobalValue LCP_Fishing_Axolotl_MonthlyIndex [GLOB:0080070A] = 9.000000'')] =
   Some 7"
proof -
  define s1 where "s1 = ''GetGlobalValue LCP_Fishing_Axolotl_MonthlyIndex [GLOB:0080070A] = none''"
  define s2 where "s2 = ''GetGlobalValue LCP_Fishing_Axolotl_MonthlyIndex [GLOB:0080070A] = 7.000000''"
  define s3 where "s3 = ''GetGlobalValue LCP_Fishing_Axolotl_MonthlyIndex [GLOB:0080070A] = 9.000000''"
  define mm where "mm = RMatch 35 (Some ''7'') []"
  have "regexMatch monthRe s1 = None" unfolding s1_def by code_simp
  then have earlier: "\<forall>(k', s') \<in> set [(''Cond1'', s1)].
        \<not> regexTest condKeyRe k' \<or> s' = [] \<or>
        \<not> includesStr s' ''LCP_Fishing_Axolotl_MonthlyIndex'' \<or> regexMatch monthRe s' = None"
    by simp
  have k: "regexTest condKeyRe ''Cond2''" by code_simp
  have s: "includesStr s2 ''LCP_Fishing_Axolotl_MonthlyIndex''" unfolding s2_def by code_simp
  have m: "regexMatch monthRe s2 = Some mm" unfolding s2_def mm_def by code_simp
  have n: "Number (captured mm) = 7" unfolding mm_def by code_simp
  from first_matching_field_decides [OF earlier k s m, of "[(''Cond3'', s3)]"]
  have "extractMonthIndex [(''Cond1'', s1), (''Cond2'', s2), (''Cond3'', s3)] = Some 7"
    by (simp add: n)
  then show ?thesis unfolding s1_def s2_def s3_def .
qed

text \<open>
  C2 as stated fails when the first matching column holds a numeral outside 1..12: the scan
  stops there, the later column with \<^verbatim>\<open>7.000000\<close> is not read, and the row gets no entry.
\<close>

theorem out_of_range_first_counterexample:
  "extractMonthIndex
     [(''Cond1'', ''GetGlobalValue LCP_Fishing_Axolotl_MonthlyIndex [GLOB:0080070A] = 13.000000''),
      (''Cond2'', ''GetGlobalValue LCP_Fishing_Axolotl_MonthlyIndex [GLOB:0080070A] = 7.000000'')] =
   Some 13 \<and>
   monthsLoop Map.empty
     [[(''Cond1'', ''GetGlobalValue LCP_Fishing_Axolotl_MonthlyIndex [GLOB:0080070A] = 13.000000''),
       (''Cond2'', ''GetGlobalValue LCP_Fishing_Axolotl_MonthlyIndex [GLOB:0080070A] = 7.000000'')]]
     ''7'' = None"
  by code_simp

subsection \<open>C3: tags of one condition field\<close>

text \<open>
  C3, amended. Every \<^verbatim>\<open>Cond\<close> column with text gives at most one tag, the tag of the first
  match of the expression in its text: the row's tags are exactly these, and there are no
  more tags than \<^verbatim>\<open>Cond\<close> columns. A column whose first token is \<^verbatim>\<open>LocRegion\<close> with the
  identifier \<open>ident\<close> gives the one tag of \<open>ident\<close>, whatever tokens follow it in the text.
\<close>

theorem one_tag_per_field:
  "set (extractRegions row) =
     {t. \<exists>(k, s) \<in> set row. \<exists>m. regexTest condKeyRe k \<and> s \<noteq> [] \<and>
           regexMatch regionRe s = Some m \<and> t = prettyFromLocRegion (captured m) \<and> t \<noteq> []} \<and>
   length (extractRegions row) \<le> length (filter (\<lambda>(k, s). regexTest condKeyRe k) row) \<and>
   (regexTest condKeyRe k \<and> regionFieldOk a ident ws \<longrightarrow>
      extractRegions [(k, regionField a ident ws b)] = [camelSpace ident])"
proof (intro conjI impI)
  have "\<And>k s t. fieldRegion k s = Some t \<longleftrightarrow>
      (\<exists>m. regexTest condKeyRe k \<and> s \<noteq> [] \<and> regexMatch regionRe s = Some m \<and>
           t = prettyFromLocRegion (captured m) \<and> t \<noteq> [])"
    by (auto simp: fieldRegion_def split: option.splits)
  then show "set (extractRegions row) =
     {t. \<exists>(k, s) \<in> set row. \<exists>m. regexTest condKeyRe k \<and> s \<noteq> [] \<and>
           regexMatch regionRe s = Some m \<and> t = prettyFromLocRegion (captured m) \<and> t \<noteq> []}"
    unfolding extractRegions_def set_regionsLoop by simp
next
  have "length (filter (\<lambda>(k, s). fieldRegion k s \<noteq> None) row) \<le>
      length (filter (\<lambda>(k, s). regexTest condKeyRe k) row)"
  proof (induction row)
    case Nil
    show ?case by simp
  next
    case (Cons p row)
    then show ?case by (cases p) (auto simp: fieldRegion_def)
  qed
  with length_regionsLoop [of "[]" row]
  show "length (extractRegions row) \<le> length (filter (\<lambda>(k, s). regexTest condKeyRe k) row)"
    by (simp add: extractRegions_def)
next
  assume "regexTest condKeyRe k \<and> regionFieldOk a ident ws"
  then have f: "fieldRegion k (regionField a ident ws b) = Some (camelSpace ident)"
    by (simp add: fieldRegion_regionField)
  show "extractRegions [(k, regionField a ident ws b)] = [camelSpace ident]"
    unfolding extractRegions_def
    by (simp only: regionsLoop_Cons f option.case regionsLoop_Nil) (simp add: setAdd_def)
qed

theorem one_tag_per_field_witness:
  "extractRegions
     [(''Cond3'', ''HasKeyword LocRegionBurningSprings [KYWD:007AE59E] OR HasKeyword LocRegionAshHeap [KYWD:007AE5A0]'')] =
   [''Burning Springs'']"
proof -
  have k: "regexTest condKeyRe ''Cond3''" by code_simp
  have ok: "regionFieldOk ''HasKeyword '' ''BurningSprings'' '' ''" by code_simp
  have c: "camelSpace ''BurningSprings'' = ''Burning Springs''" by code_simp
  from one_tag_per_field [where k = "''Cond3''" and a = "''HasKeyword ''" and ident = "''BurningSprings''"
      and ws = "'' ''" and b = "''007AE59E] OR HasKeyword LocRegionAshHeap [KYWD:007AE5A0]''"] k ok
  have "extractRegions
     [(''Cond3'', regionField ''HasKeyword '' ''BurningSprings'' '' ''
         ''007AE59E] OR HasKeyword LocRegionAshHeap [KYWD:007AE5A0]'')] = [camelSpace ''BurningSprings'']"
    by blast
  then show ?thesis unfolding c regionField_def by simp
qed

text \<open>
  C3 as stated fails: of two region tokens in one column only the first gives a tag.
\<close>

theorem second_token_dropped_counterexample:
  "extractRegions
     [(''Cond1'', ''HasKeyword LocRegionForestFloodlands [KYWD:007AE59D] OR HasKeyword LocRegionBurningSprings [KYWD:007AE59E]'')] =
   [''Forest Floodlands'']"
  by code_simp

subsection \<open>C4: keys of the table\<close>

text \<open>
  C4. The keys of every assembled table are the texts of month indices between 1 and 12,
  exactly those that some row yields; and a row that yields no index between 1 and 12 can be
  taken out of the input without changing the table.
\<close>

theorem table_keys_are_months:
  "dom (monthsLoop Map.empty rows) =
     String ` {idx. 1 \<le> idx \<and> idx \<le> 12 \<and> (\<exists>r \<in> set rows. extractMonthIndex r = Some (enat idx))} \<and>
   dom (monthsLoop Map.empty rows) \<subseteq>
     {''12'', ''11'', ''10'', ''9'', ''8'', ''7'', ''6'', ''5'', ''4'', ''3'', ''2'', ''1''} \<and>
   ((\<forall>idx. extractMonthIndex r = Some idx \<longrightarrow> idx < 1 \<or> 12 < idx) \<longrightarrow>
      monthsLoop m (pre @ r # post) = monthsLoop m (pre @ post))"
proof (intro conjI impI)
  have eq: "{idx. \<exists>r \<in> set rows. rowMonth r = Some idx} =
      {idx. 1 \<le> idx \<and> idx \<le> 12 \<and> (\<exists>r \<in> set rows. extractMonthIndex r = Some (enat idx))}"
    by (auto simp: rowMonth_Some)
  show d: "dom (monthsLoop Map.empty rows) =
     String ` {idx. 1 \<le> idx \<and> idx \<le> 12 \<and> (\<exists>r \<in> set rows. extractMonthIndex r = Some (enat idx))}"
    by (simp add: dom_monthsLoop eq)
  have "String ` {idx. 1 \<le> idx \<and> idx \<le> 12 \<and> (\<exists>r \<in> set rows. extractMonthIndex r = Some (enat idx))}
      \<subseteq> String ` {idx. 1 \<le> idx \<and> idx \<le> 12}"
    by blast
  then show "dom (monthsLoop Map.empty rows) \<subseteq>
     {''12'', ''11'', ''10'', ''9'', ''8'', ''7'', ''6'', ''5'', ''4'', ''3'', ''2'', ''1''}"
    unfolding d String_1_12 .
next
  assume "\<forall>idx. extractMonthIndex r = Some idx \<longrightarrow> idx < 1 \<or> 12 < idx"
  then have "rowMonth r = None"
    by (cases "rowMonth r") (auto simp: rowMonth_Some one_enat_def numeral_eq_enat)
  then show "monthsLoop m (pre @ r # post) = monthsLoop m (pre @ post)"
    by (simp only: monthsLoop_append monthsLoop_Cons option.case)
qed

theorem table_keys_are_months_witness:
  "dom (monthsLoop Map.empty
      [[(''Cond1'', ''LCP_Fishing_Axolotl_MonthlyIndex [GLOB:0080070A] = 13.000000'')],
       [(''Cond1'', ''LCP_Fishing_Axolotl_MonthlyIndex [GLOB:0080070A] = 7.000000'')]]) = {''7''}"
proof -
  define r13 where "r13 = [(''Cond1'', ''LCP_Fishing_Axolotl_MonthlyIndex [GLOB:0080070A] = 13.000000'')]"
  define r7 where "r7 = [(''Cond1'', ''LCP_Fishing_Axolotl_MonthlyIndex [GLOB:0080070A] = 7.000000'')]"
  have e13: "extractMonthIndex r13 = Some 13" unfolding r13_def by code_simp
  have e7: "extractMonthIndex r7 = Some 7" unfolding r7_def by code_simp
  have s7: "String 7 = ''7''" by code_simp
  have "\<forall>idx. extractMonthIndex r13 = Some idx \<longrightarrow> idx < 1 \<or> 12 < idx"
    by (simp add: e13)
  with table_keys_are_months [of "[r7]" r13 Map.empty "[]" "[r7]"]
  have "monthsLoop Map.empty [r13, r7] = monthsLoop Map.empty [r7]"
    and "dom (monthsLoop Map.empty [r7]) =
       String ` {idx. 1 \<le> idx \<and> idx \<le> 12 \<and> (\<exists>r \<in> set [r7]. extractMonthIndex r = Some (enat idx))}"
    by simp_all
  moreover have "{idx. 1 \<le> idx \<and> idx \<le> 12 \<and> (\<exists>r \<in> set [r7]. extractMonthIndex r = Some (enat idx))} = {7}"
    by (auto simp: e7 numeral_eq_enat)
  ultimately have "dom (monthsLoop Map.empty [r13, r7]) = {''7''}" by (simp add: s7)
  then show ?thesis unfolding r13_def r7_def .
qed

subsection \<open>C5: last write wins\<close>

text \<open>
  C5. Last write wins: when a row yields a month index between 1 and 12 and no later row
  yields the same index, the table's entry under that index is the one built from this row,
  whatever earlier rows stored there.
\<close>

theorem last_write_wins:
  assumes "extractMonthIndex r = Some (enat idx)" and "1 \<le> idx" and "idx \<le> 12"
    and "\<forall>r' \<in> set post. extractMonthIndex r' \<noteq> Some (enat idx)"
  shows "monthsLoop m (pre @ r # post) (String idx) = Some (mkEntry r)"
proof -
  from assms(1-3) have here: "rowMonth r = Some idx" by (simp add: rowMonth_Some)
  from assms(4) have later: "\<forall>r' \<in> set post. rowMonth r' \<noteq> Some idx"
    by (simp add: rowMonth_Some)
  have "monthsLoop m (pre @ r # post) =
      monthsLoop ((monthsLoop m pre)(String idx \<mapsto> mkEntry r)) post"
    by (simp only: monthsLoop_append monthsLoop_Cons here option.case)
  then show ?thesis
    by (simp add: monthsLoop_untouched [OF later])
qed

theorem last_write_wins_witness:
  "monthsLoop Map.empty
     [[(''LVLO_Reference'', ''0080070C:Fishing_Fish_Small_Axolotl01_CharcoalAxolotl:FISH''),
       (''Cond1'', ''LCP_Fishing_Axolotl_MonthlyIndex [GLOB:0080070A] = 7.000000'')],
      [(''LVLO_Reference'', ''0080070D:Fishing_Fish_Small_Axolotl02_PinkAxolotl:FISH''),
       (''Cond1'', ''LCP_Fishing_Axolotl_MonthlyIndex [GLOB:0080070A] = 7.000000'')]] ''7'' =
   Some \<lparr>name = ''Pink Axolotl'', regions = [], image' = None\<rparr>"
proof -
  define r1 where "r1 =
     [(''LVLO_Reference'', ''0080070C:Fishing_Fish_Small_Axolotl01_CharcoalAxolotl:FISH''),
      (''Cond1'', ''LCP_Fishing_Axolotl_MonthlyIndex [GLOB:0080070A] = 7.000000'')]"
  define r2 where "r2 =
     [(''LVLO_Reference'', ''0080070D:Fishing_Fish_Small_Axolotl02_PinkAxolotl:FISH''),
      (''Cond1'', ''LCP_Fishing_Axolotl_MonthlyIndex [GLOB:0080070A] = 7.000000'')]"
  have "extractMonthIndex r2 = Some 7" unfolding r2_def by code_simp
  then have e2: "extractMonthIndex r2 = Some (enat 7)" by (simp add: numeral_eq_enat)
  have s7: "String 7 = ''7''" by code_simp
  have m2: "mkEntry r2 = \<lparr>name = ''Pink Axolotl'', regions = [], image' = None\<rparr>"
    unfolding r2_def by code_simp
  have "monthsLoop Map.empty ([r1] @ r2 # []) (String 7) = Some (mkEntry r2)"
    by (rule last_write_wins [OF e2]) simp_all
  then have "monthsLoop Map.empty [r1, r2] ''7'' =
      Some \<lparr>name = ''Pink Axolotl'', regions = [], image' = None\<rparr>"
    by (simp add: s7 m2)
  then show ?thesis unfolding r1_def r2_def .
qed

subsection \<open>C6: the display name\<close>

text \<open>
  C6. The reference \<^verbatim>\<open>0080070C:Fishing_Fish_Small_Axolotl01_CharcoalAxolotl:FISH\<close> gives the
  name \<^verbatim>\<open>Charcoal Axolotl\<close>. In general a reference made of a first part without colon, a
  colon, an identifier without colon, and \<^verbatim>\<open>:FISH\<close> (in any letter case) at a word boundary
  gives the last of the identifier's parts between underscores, with a space put between a
  lower-case and an upper-case letter, trimmed. A missing reference, and a reference in which
  no \<^verbatim>\<open>:FISH\<close> ends at a word boundary, give the empty name; and a row whose reference gives
  the empty name gets the name \<^verbatim>\<open>TBA\<close>.
\<close>

theorem name_derivation:
  "prettyFromFishRef (Some ''0080070C:Fishing_Fish_Small_Axolotl01_CharcoalAxolotl:FISH'') =
     ''Charcoal Axolotl'' \<and>
   (CHR '':'' \<notin> set hexid \<and> ident \<noteq> [] \<and> CHR '':'' \<notin> set ident \<and>
    litMatch True tag '':FISH'' \<and> (post = [] \<or> \<not> isWordChar (hd post)) \<longrightarrow>
      prettyFromFishRef (Some (hexid @ '':'' @ ident @ tag @ post)) =
        trim (camelSpace (last (splitOn CHR ''_'' ident)))) \<and>
   prettyFromFishRef None = [] \<and>
   (\<not> includesTag (map toUpper ref) '':FISH'' \<longrightarrow> prettyFromFishRef (Some ref) = []) \<and>
   (prettyFromFishRef (getProp r ''LVLO_Reference'') = [] \<longrightarrow> name (mkEntry r) = ''TBA'')"
proof (intro conjI impI)
  show "prettyFromFishRef (Some ''0080070C:Fishing_Fish_Small_Axolotl01_CharcoalAxolotl:FISH'') =
     ''Charcoal Axolotl''"
    by code_simp
next
  assume "CHR '':'' \<notin> set hexid \<and> ident \<noteq> [] \<and> CHR '':'' \<notin> set ident \<and>
    litMatch True tag '':FISH'' \<and> (post = [] \<or> \<not> isWordChar (hd post))"
  then show "prettyFromFishRef (Some (hexid @ '':'' @ ident @ tag @ post)) =
        trim (camelSpace (last (splitOn CHR ''_'' ident)))"
    by (intro prettyFromFishRef_shape) simp_all
next
  show "prettyFromFishRef None = []" by code_simp
next
  assume no: "\<not> includesTag (map toUpper ref) '':FISH''"
  then have "regexMatch fishRe ref = None"
    using fishRe_needs_tag [of ref] by (cases "regexMatch fishRe ref") auto
  then show "prettyFromFishRef (Some ref) = []"
    by (simp add: prettyFromFishRef_def)
next
  assume "prettyFromFishRef (getProp r ''LVLO_Reference'') = []"
  then show "name (mkEntry r) = ''TBA''"
    by (simp add: mkEntry_def)
qed

theorem name_derivation_witness:
  "prettyFromFishRef (Some ''0080070D:Fishing_Fish_Small_Axolotl02_PinkAxolotl:fish [FISH:0080070D]'') =
     ''Pink Axolotl'' \<and>
   prettyFromFishRef (Some ''0080070C:Fishing_Fish_Small_Axolotl01_CharcoalAxolotl:MISC'') = [] \<and>
   name (mkEntry [(''LVLO_Reference'', ''0080070C:Fishing_Fish_Small_Axolotl01_CharcoalAxolotl:MISC'')])
     = ''TBA''"
proof -
  define ref where "ref = ''0080070C:Fishing_Fish_Small_Axolotl01_CharcoalAxolotl:MISC''"
  define r where "r = [(''LVLO_Reference'', ref)]"
  define ident where "ident = ''Fishing_Fish_Small_Axolotl02_PinkAxolotl''"
  have no: "\<not> includesTag (map toUpper ref) '':FISH''" unfolding ref_def by code_simp
  have g: "getProp r ''LVLO_Reference'' = Some ref" by (simp add: r_def getProp_def)
  from name_derivation [where ref = ref] no
  have e: "prettyFromFishRef (Some ref) = []" by blast
  with name_derivation [where r = r] g have t: "name (mkEntry r) = ''TBA''" by simp
  have h: "CHR '':'' \<notin> set ''0080070D'' \<and> ident \<noteq> [] \<and> CHR '':'' \<notin> set ident \<and>
    litMatch True '':fish'' '':FISH'' \<and>
    ('' [FISH:0080070D]'' = [] \<or> \<not> isWordChar (hd '' [FISH:0080070D]''))"
    unfolding ident_def by code_simp
  have v: "trim (camelSpace (last (splitOn CHR ''_'' ident))) = ''Pink Axolotl''"
    unfolding ident_def by code_simp
  from name_derivation [where hexid = "''0080070D''" and ident = ident and tag = "'':fish''"
      and post = "'' [FISH:0080070D]''"] h
  have "prettyFromFishRef (Some (''0080070D'' @ '':'' @ ident @ '':fish'' @ '' [FISH:0080070D]'')) =
      trim (camelSpace (last (splitOn CHR ''_'' ident)))"
    by blast
  then have "prettyFromFishRef (Some (''0080070D'' @ '':'' @ ident @ '':fish'' @ '' [FISH:0080070D]'')) =
      ''Pink Axolotl''"
    unfolding v .
  with e t show ?thesis unfolding r_def ref_def ident_def by simp
qed

subsection \<open>C7: one tag for one token\<close>




subsection \<open>C8: no row of the list\<close>

text \<open>
  C8. Once a file is selected, \<open>main\<close> fails for want of rows exactly when no parsed row
  has the value \<^verbatim>\<open>Fishing_LLS_FishCollection_Axolotls\<close> in its column \<^verbatim>\<open>LVLI_EDID\<close>; when
  some row has it, \<open>main\<close> returns a payload whose table is built from the rows that have it.
\<close>

theorem missing_list_error:
  assumes "pickLatestLvliEntriesTsv fs repoRoot = Inr path"
  shows "(main fs repoRoot now = Inl (NoRowsFound path) \<longleftrightarrow>
            \<not> (\<exists>r \<in> set (parseTSV (readFile fs path)).
                 getProp r ''LVLI_EDID'' = Some ''Fishing_LLS_FishCollection_Axolotls'')) \<and>
         ((\<exists>r \<in> set (parseTSV (readFile fs path)).
             getProp r ''LVLI_EDID'' = Some ''Fishing_LLS_FishCollection_Axolotls'') \<longrightarrow>
          (\<exists>p. main fs repoRoot now = Inr p \<and>
             months p = monthsLoop Map.empty (filter isAxoRow (parseTSV (readFile fs path)))))"
proof -
  define rows where "rows = parseTSV (readFile fs path)"
  have "filter isAxoRow rows = [] \<longleftrightarrow>
      \<not> (\<exists>r \<in> set rows. getProp r ''LVLI_EDID'' = Some ''Fishing_LLS_FishCollection_Axolotls'')"
    unfolding rows_def filter_empty_conv using isAxoRow_parsed by blast
  with assms show ?thesis
    unfolding rows_def [symmetric]
    by (auto simp: main_def Let_def rows_def)
qed

theorem missing_list_error_witness:
  "main \<lparr>tsvDir = Some [File ''LVLI_Export_Feb_2026_LVLI_Entries.tsv''],
         mtimeMs = (\<lambda>p. 0),
         readFile = (\<lambda>p. ''LVLI_EDID'' @ [CHR 0x09] @ ''Cond1'' @ [CHR 0x0A] @
                          ''Fishing_LLS_FishCollection_Koi'' @ [CHR 0x09] @ ''x'')\<rparr>
     ''/repo'' ''2026-02-01T00:00:00.000Z'' =
   Inl (NoRowsFound ''/repo/tsv/LVLI_Export_Feb_2026_LVLI_Entries.tsv'')"
proof -
  define content where "content = ''LVLI_EDID'' @ [CHR 0x09] @ ''Cond1'' @ [CHR 0x0A] @
                          ''Fishing_LLS_FishCollection_Koi'' @ [CHR 0x09] @ ''x''"
  define fs where "fs = \<lparr>tsvDir = Some [File ''LVLI_Export_Feb_2026_LVLI_Entries.tsv''],
         mtimeMs = (\<lambda>p. 0::real), readFile = (\<lambda>p. content)\<rparr>"
  define path where "path = ''/repo/tsv/LVLI_Export_Feb_2026_LVLI_Entries.tsv''"
  have m: "filter (\<lambda>p. regexTest entriesRe (basename p))
             (listFilesRecursive (pathJoin ''/repo'' ''tsv'')
                [File ''LVLI_Export_Feb_2026_LVLI_Entries.tsv'']) = [path]"
    unfolding path_def by code_simp
  have pick: "pickLatestLvliEntriesTsv fs ''/repo'' = Inr path"
    by (simp add: pickLatestLvliEntriesTsv_def fs_def Let_def m sortBy_def)
  have rows: "parseTSV content = [[(''LVLI_EDID'', ''Fishing_LLS_FishCollection_Koi''), (''Cond1'', ''x'')]]"
    unfolding content_def by code_simp
  have "readFile fs path = content" by (simp add: fs_def)
  then have "\<not> (\<exists>r \<in> set (parseTSV (readFile fs path)).
                 getProp r ''LVLI_EDID'' = Some ''Fishing_LLS_FishCollection_Axolotls'')"
    by (simp add: rows getProp_def)
  with missing_list_error [OF pick, of "''2026-02-01T00:00:00.000Z''"]
  have "main fs ''/repo'' ''2026-02-01T00:00:00.000Z'' = Inl (NoRowsFound path)" by blast
  then show ?thesis unfolding fs_def content_def path_def .
qed

subsection \<open>C9: the newest export\<close>

text \<open>
  C9. Without the folder \<^verbatim>\<open>tsv/\<close> the selection fails, and so it does when no file name
  under it matches; otherwise it gives one of the matching files, and no matching file has a
  later modification time.
\<close>

theorem pick_latest:
  "(tsvDir fs = None \<longrightarrow>
      pickLatestLvliEntriesTsv fs repoRoot = Inl (MissingTsvFolder (pathJoin repoRoot ''tsv''))) \<and>
   (tsvDir fs = Some its \<longrightarrow>
      (let matches = filter (\<lambda>p. regexTest entriesRe (basename p))
                       (listFilesRecursive (pathJoin repoRoot ''tsv'') its)
       in (matches = [] \<longrightarrow>
             pickLatestLvliEntriesTsv fs repoRoot =
               Inl (NoEntriesTsvFound (pathJoin repoRoot ''tsv''))) \<and>
          (matches \<noteq> [] \<longrightarrow>
             (\<exists>p. pickLatestLvliEntriesTsv fs repoRoot = Inr p \<and> p \<in> set matches \<and>
                  (\<forall>q \<in> set matches. mtimeMs fs q \<le> mtimeMs fs p)))))"
proof (intro conjI impI)
  assume "tsvDir fs = None"
  then show "pickLatestLvliEntriesTsv fs repoRoot = Inl (MissingTsvFolder (pathJoin repoRoot ''tsv''))"
    by (simp add: pickLatestLvliEntriesTsv_def)
next
  assume its: "tsvDir fs = Some its"
  define matches where "matches = filter (\<lambda>p. regexTest entriesRe (basename p))
                       (listFilesRecursive (pathJoin repoRoot ''tsv'') its)"
  have "(matches = [] \<longrightarrow>
             pickLatestLvliEntriesTsv fs repoRoot =
               Inl (NoEntriesTsvFound (pathJoin repoRoot ''tsv''))) \<and>
          (matches \<noteq> [] \<longrightarrow>
             (\<exists>p. pickLatestLvliEntriesTsv fs repoRoot = Inr p \<and> p \<in> set matches \<and>
                  (\<forall>q \<in> set matches. mtimeMs fs q \<le> mtimeMs fs p)))"
  proof (intro conjI impI)
    assume "matches = []"
    then show "pickLatestLvliEntriesTsv fs repoRoot =
               Inl (NoEntriesTsvFound (pathJoin repoRoot ''tsv''))"
      by (simp add: pickLatestLvliEntriesTsv_def its matches_def Let_def)
  next
    assume ne: "matches \<noteq> []"
    then have "pickLatestLvliEntriesTsv fs repoRoot =
        Inr (hd (sortBy (\<lambda>a b. mtimeMs fs b - mtimeMs fs a) matches))"
      by (simp add: pickLatestLvliEntriesTsv_def its matches_def Let_def)
    with hd_sortBy_newest [OF ne, of "mtimeMs fs"]
    show "\<exists>p. pickLatestLvliEntriesTsv fs repoRoot = Inr p \<and> p \<in> set matches \<and>
                  (\<forall>q \<in> set matches. mtimeMs fs q \<le> mtimeMs fs p)"
      by blast
  qed
  then show "let matches = filter (\<lambda>p. regexTest entriesRe (basename p))
                       (listFilesRecursive (pathJoin repoRoot ''tsv'') its)
       in (matches = [] \<longrightarrow>
             pickLatestLvliEntriesTsv fs repoRoot =
               Inl (NoEntriesTsvFound (pathJoin repoRoot ''tsv''))) \<and>
          (matches \<noteq> [] \<longrightarrow>
             (\<exists>p. pickLatestLvliEntriesTsv fs repoRoot = Inr p \<and> p \<in> set matches \<and>
                  (\<forall>q \<in> set matches. mtimeMs fs q \<le> mtimeMs fs p)))"
    unfolding matches_def Let_def .
qed

theorem pick_latest_witness:
  "pickLatestLvliEntriesTsv
     \<lparr>tsvDir = Some [File ''LVLI_Export_Jan_2026_LVLI_Entries.tsv'',
                      Dir ''new'' [File ''lvli_export_Mar_2026_lvli_entries.TSV'', File ''notes.txt''],
                      File ''LVLI_Export_Feb_2026_LVLI_Entries.tsv''],
      mtimeMs = (\<lambda>p. if p = ''/repo/tsv/LVLI_Export_Jan_2026_LVLI_Entries.tsv'' then 1000
                      else if p = ''/repo/tsv/LVLI_Export_Feb_2026_LVLI_Entries.tsv'' then 2000
                      else if p = ''/repo/tsv/new/lvli_export_Mar_2026_lvli_entries.TSV'' then 3000
                      else 9000),
      readFile = (\<lambda>p. [])\<rparr> ''/repo'' =
   Inr ''/repo/tsv/new/lvli_export_Mar_2026_lvli_entries.TSV''"
proof -
  define its where "its = [File ''LVLI_Export_Jan_2026_LVLI_Entries.tsv'',
                      Dir ''new'' [File ''lvli_export_Mar_2026_lvli_entries.TSV'', File ''notes.txt''],
                      File ''LVLI_Export_Feb_2026_LVLI_Entries.tsv'']"
  define mt :: "string \<Rightarrow> real" where
    "mt = (\<lambda>p. if p = ''/repo/tsv/LVLI_Export_Jan_2026_LVLI_Entries.tsv'' then 1000
                      else if p = ''/repo/tsv/LVLI_Export_Feb_2026_LVLI_Entries.tsv'' then 2000
                      else if p = ''/repo/tsv/new/lvli_export_Mar_2026_lvli_entries.TSV'' then 3000
                      else 9000)"
  define fs where "fs = \<lparr>tsvDir = Some its, mtimeMs = mt, readFile = (\<lambda>p. [])\<rparr>"
  have m: "filter (\<lambda>p. regexTest entriesRe (basename p))
             (listFilesRecursive (pathJoin ''/repo'' ''tsv'') its) =
           [''/repo/tsv/LVLI_Export_Jan_2026_LVLI_Entries.tsv'',
            ''/repo/tsv/new/lvli_export_Mar_2026_lvli_entries.TSV'',
            ''/repo/tsv/LVLI_Export_Feb_2026_LVLI_Entries.tsv'']"
    unfolding its_def by code_simp
  have t: "tsvDir fs = Some its" by (simp add: fs_def)
  from pick_latest [of fs "''/repo''" its] t
  obtain p where p: "pickLatestLvliEntriesTsv fs ''/repo'' = Inr p"
    and "p \<in> set [''/repo/tsv/LVLI_Export_Jan_2026_LVLI_Entries.tsv'',
            ''/repo/tsv/new/lvli_export_Mar_2026_lvli_entries.TSV'',
            ''/repo/tsv/LVLI_Export_Feb_2026_LVLI_Entries.tsv'']"
    and "\<forall>q \<in> set [''/repo/tsv/LVLI_Export_Jan_2026_LVLI_Entries.tsv'',
            ''/repo/tsv/new/lvli_export_Mar_2026_lvli_entries.TSV'',
            ''/repo/tsv/LVLI_Export_Feb_2026_LVLI_Entries.tsv'']. mtimeMs fs q \<le> mtimeMs fs p"
    unfolding m Let_def by auto
  then have "p = ''/repo/tsv/new/lvli_export_Mar_2026_lvli_entries.TSV''"
    by (auto simp: fs_def mt_def)
  with p show ?thesis unfolding fs_def mt_def its_def by simp
qed

subsection \<open>C10: values beyond the header\<close>

text \<open>
  C10. Under the header \<^verbatim>\<open>A __proto__\<close> the line \<^verbatim>\<open>x y z\<close>, of three values separated by
  tabs, gives a record with the one key \<^verbatim>\<open>A\<close>: the third value is passed over and parsing
  does not fail, but the record lacks the header's field name \<^verbatim>\<open>__proto__\<close>, which C10
  says it has. The assignment \<^verbatim>\<open>row[header[c]] = ...\<close> of \<open>parseTSV\<close> makes one property
  for every other name (\<open>parseLine_beyond_header\<close>) and none for this one.
\<close>

theorem proto_column_lost:
  "parseTSV (''A'' @ [CHR 0x09] @ ''__proto__'' @ [CHR 0x0A] @
             ''x'' @ [CHR 0x09] @ ''y'' @ [CHR 0x09] @ ''z'') = [[(''A'', ''x'')]]"
  by code_simp

end
